theory Spec2Isabelle
  imports Main
begin

section \<open>Text\<close>

text \<open>
  A Python \<open>str\<close> is a sequence of Unicode code points; it is modelled as a list of
  natural numbers. \<open>str ''abc''\<close> writes an ASCII literal.
\<close>

type_synonym ustr = "nat list"

definition str :: "string \<Rightarrow> ustr" where
  "str s = map of_char s"

definition NL :: nat where "NL = 10"
definition SLASH :: nat where "SLASH = 47"
definition UNDERSCORE :: nat where "UNDERSCORE = 95"
definition RBRACKET :: nat where "RBRACKET = 93"

datatype error = TypeError | IndexError | ValueError | OSError | ConnectionError

text \<open>
  The character categories \<open>\d\<close>, \<open>\w\<close>, \<open>\s\<close> of the \<open>re\<close> module on \<open>str\<close>
  patterns follow the Unicode database of the interpreter. On ASCII they are fixed
  (digits \<open>0-9\<close>; word characters \<open>[A-Za-z0-9_]\<close>; whitespace \<open>\t\n\v\f\r\<close>, the
  separators \<open>0x1c-0x1f\<close> and the blank). Beyond ASCII the tables are not part of the
  repository and are a parameter of the model.
\<close>

record tables =
  digit_ext :: "nat \<Rightarrow> bool"
  alnum_ext :: "nat \<Rightarrow> bool"
  space_ext :: "nat \<Rightarrow> bool"

definition is_digit :: "tables \<Rightarrow> nat \<Rightarrow> bool" where
  "is_digit U c = (if c < 128 then 48 \<le> c \<and> c \<le> 57 else digit_ext U c)"

definition is_word :: "tables \<Rightarrow> nat \<Rightarrow> bool" where
  "is_word U c =
     (if c < 128
      then (48 \<le> c \<and> c \<le> 57) \<or> (65 \<le> c \<and> c \<le> 90) \<or> (97 \<le> c \<and> c \<le> 122) \<or> c = 95
      else alnum_ext U c)"

definition is_space :: "tables \<Rightarrow> nat \<Rightarrow> bool" where
  "is_space U c =
     (if c < 128 then (9 \<le> c \<and> c \<le> 13) \<or> (28 \<le> c \<and> c \<le> 32) else space_ext U c)"

section \<open>Regular expressions as the \<open>re\<close> module matches them\<close>

text \<open>
  The patterns of the repository use literals, character sets, the categories above,
  \<open>.\<close>, \<open>^\<close>, \<open>$\<close>, greedy repetition of a single-character matcher, concatenation,
  alternation and capturing groups. No flag other than \<open>re.UNICODE\<close> is given, so
  \<open>.\<close> does not match a newline, \<open>^\<close> matches at the start of the subject only, and
  \<open>$\<close> matches at the end of the subject or just before a newline that ends it.
\<close>

datatype item = Chr nat | Range nat nat | CatDigit | CatWord | CatNotWord | CatSpace

datatype single = In "item list" | Dot

datatype regex =
    One single
  | Star single
  | Plus single
  | Times nat single
  | Bol
  | Eol
  | Cat regex regex
  | Or regex regex
  | Group nat regex

fun in_item :: "tables \<Rightarrow> item \<Rightarrow> nat \<Rightarrow> bool" where
  "in_item U (Chr a) c = (c = a)"
| "in_item U (Range a b) c = (a \<le> c \<and> c \<le> b)"
| "in_item U CatDigit c = is_digit U c"
| "in_item U CatWord c = is_word U c"
| "in_item U CatNotWord c = (\<not> is_word U c)"
| "in_item U CatSpace c = is_space U c"

fun accepts :: "tables \<Rightarrow> single \<Rightarrow> nat \<Rightarrow> bool" where
  "accepts U (In its) c = list_ex (\<lambda>i. in_item U i c) its"
| "accepts U Dot c = (c \<noteq> NL)"

text \<open>
  A matcher state is the position reached, the rest of the subject from there, and the
  text captured by each group so far. \<open>ends\<close> lists the states in which a pattern can
  stop, in the order in which the backtracking matcher tries them: the longest
  repetition first, the left alternative first. The match found is the first one.
\<close>

type_synonym mstate = "nat \<times> ustr \<times> (nat \<rightharpoonup> ustr)"

fun ends :: "tables \<Rightarrow> regex \<Rightarrow> mstate \<Rightarrow> mstate list" where
  "ends U (One c) (i, r, g) =
     (case r of [] \<Rightarrow> [] | x # xs \<Rightarrow> if accepts U c x then [(Suc i, xs, g)] else [])"
| "ends U (Star c) (i, r, g) =
     map (\<lambda>k. (i + k, drop k r, g)) (rev [0 ..< Suc (length (takeWhile (accepts U c) r))])"
| "ends U (Plus c) (i, r, g) =
     map (\<lambda>k. (i + k, drop k r, g)) (rev [1 ..< Suc (length (takeWhile (accepts U c) r))])"
| "ends U (Times n c) (i, r, g) =
     (if n \<le> length (takeWhile (accepts U c) r) then [(i + n, drop n r, g)] else [])"
| "ends U Bol (i, r, g) = (if i = 0 then [(i, r, g)] else [])"
| "ends U Eol (i, r, g) = (if r = [] \<or> r = [NL] then [(i, r, g)] else [])"
| "ends U (Cat a b) st = concat (map (ends U b) (ends U a st))"
| "ends U (Or a b) st = ends U a st @ ends U b st"
| "ends U (Group n a) (i, r, g) =
     map (\<lambda>(j, r', g'). (j, r', g'(n \<mapsto> take (j - i) r))) (ends U a (i, r, g))"

definition Lit :: "nat \<Rightarrow> regex" where
  "Lit c = One (In [Chr c])"

fun cat :: "regex list \<Rightarrow> regex" where
  "cat [] = Star (In [])"
| "cat [a] = a"
| "cat (a # b # rs) = Cat a (cat (b # rs))"

text \<open>\<open>re.match(p, s)\<close>: the pattern is tried at position 0 only.\<close>

definition re_match :: "tables \<Rightarrow> regex \<Rightarrow> ustr \<Rightarrow> mstate option" where
  "re_match U p s = (case ends U p (0, s, Map.empty) of [] \<Rightarrow> None | m # _ \<Rightarrow> Some m)"

text \<open>\<open>(lambda p,seq: True if re.match(p, seq) else False)\<close>\<close>

definition matches :: "tables \<Rightarrow> regex \<Rightarrow> ustr \<Rightarrow> bool" where
  "matches U p seq = (if re_match U p seq \<noteq> None then True else False)"

text \<open>\<open>s.endswith(suffix)\<close>\<close>

definition endswith :: "ustr \<Rightarrow> ustr \<Rightarrow> bool" where
  "endswith s suffix =
     (length suffix \<le> length s \<and> drop (length s - length suffix) s = suffix)"

section \<open>The parsed page\<close>

text \<open>
  \<open>BeautifulSoup(page.content, "html.parser")\<close> yields a tree of tags and strings.
  \<open>find_all(name)\<close> lists the descendant tags of that name in document order,
  \<open>find(name)\<close> is the first of them or \<open>None\<close>, and \<open>tag.string\<close> is the single
  string a tag holds (directly, or through a chain of only children), else \<open>None\<close>.
\<close>

datatype node = NavigableString ustr | Tag ustr "node list"

fun descendants :: "node \<Rightarrow> node list" where
  "descendants (NavigableString s) = []"
| "descendants (Tag n cs) = concat (map (\<lambda>c. c # descendants c) cs)"

fun is_tag :: "ustr \<Rightarrow> node \<Rightarrow> bool" where
  "is_tag name (NavigableString s) = False"
| "is_tag name (Tag n cs) = (n = name)"

definition find_all :: "ustr \<Rightarrow> node \<Rightarrow> node list" where
  "find_all name t = filter (is_tag name) (descendants t)"

definition find :: "ustr \<Rightarrow> node \<Rightarrow> node option" where
  "find name t = (case find_all name t of [] \<Rightarrow> None | x # _ \<Rightarrow> Some x)"

fun string :: "node \<Rightarrow> ustr option" where
  "string (NavigableString s) = Some s"
| "string (Tag n [c]) = string c"
| "string (Tag n cs) = None"

section \<open>Directory listing parser and classifier\<close>

definition replace_slash :: "ustr \<Rightarrow> ustr" where
  "replace_slash e = filter (\<lambda>c. c \<noteq> SLASH) e"

text \<open>\<open>r"^\d{4}\/$|^\d{4}\_\d{4}\/$"\<close>\<close>

definition dates_re :: regex where
  "dates_re =
     Or (cat [Bol, Times 4 (In [CatDigit]), Lit SLASH, Eol])
        (cat [Bol, Times 4 (In [CatDigit]), Lit UNDERSCORE, Times 4 (In [CatDigit]),
              Lit SLASH, Eol])"

text \<open>\<open>r"(\w+).txt$"\<close>\<close>

definition info_re :: regex where
  "info_re =
     cat [Group 1 (Plus (In [CatWord])), One Dot, Lit 116, Lit 120, Lit 116, Eol]"

text \<open>
  \<open>list(map(replace, filter(pred, map(lambda e: e.string, links))))\<close>: the links are
  consumed one at a time; \<open>re.match\<close> raises \<open>TypeError\<close> on \<open>None\<close>, which ends the
  whole call.
\<close>

fun keep_matching :: "tables \<Rightarrow> regex \<Rightarrow> ustr option list \<Rightarrow> error + ustr list" where
  "keep_matching U p [] = Inr []"
| "keep_matching U p (None # es) = Inl TypeError"
| "keep_matching U p (Some s # es) =
     (case keep_matching U p es of
        Inl e \<Rightarrow> Inl e
      | Inr rest \<Rightarrow>
          (if matches U p s then Inr (replace_slash s # rest) else Inr rest))"

definition link_texts :: "node \<Rightarrow> ustr option list" where
  "link_texts bs4_table = map string (find_all (str ''a'') bs4_table)"

definition get_dates_from_table :: "tables \<Rightarrow> node \<Rightarrow> error + ustr list" where
  "get_dates_from_table U bs4_table = keep_matching U dates_re (link_texts bs4_table)"

definition get_info_files_from_table :: "tables \<Rightarrow> node \<Rightarrow> error + ustr list" where
  "get_info_files_from_table U bs4_table = keep_matching U info_re (link_texts bs4_table)"

text \<open>
  \<open>get_table_from_imgw\<close>: \<open>requests.get\<close> either raises or returns a response;
  the parser turns its body into the tree; the result of \<open>soup.find('table')\<close> is
  returned as it is, \<open>None\<close> included. The transport and the HTML parser are outside
  the repository and are parameters; \<open>body\<close> is \<open>page.content\<close>.
\<close>

record response =
  status_code :: nat
  body :: "nat list"
  iter_content :: "nat \<Rightarrow> (error + nat list) list"

definition get_table_from_imgw ::
  "(ustr \<Rightarrow> error + response) \<Rightarrow> (nat list \<Rightarrow> node) \<Rightarrow> ustr \<Rightarrow> error + node option" where
  "get_table_from_imgw requests_get html_parser url =
     (case requests_get url of
        Inl e \<Rightarrow> Inl e
      | Inr page \<Rightarrow> Inr (find (str ''table'') (html_parser (body page))))"

section \<open>Header extractor\<close>

text \<open>
  The description file is given as its decoded text. \<open>readline\<close> returns the first line
  with its newline and leaves the rest; \<open>readlines\<close> splits the rest after each
  newline, keeping the newlines; a last line without newline is kept as it is.
\<close>

fun readline :: "ustr \<Rightarrow> ustr \<times> ustr" where
  "readline [] = ([], [])"
| "readline (c # cs) =
     (if c = NL then ([c], cs) else (case readline cs of (l, r) \<Rightarrow> (c # l, r)))"

fun readlines :: "ustr \<Rightarrow> ustr list" where
  "readlines [] = []"
| "readlines (c # cs) =
     (if c = NL then [c] # readlines cs
      else (case readlines cs of [] \<Rightarrow> [[c]] | l # ls \<Rightarrow> (c # l) # ls))"

text \<open>\<open>r"(\s+\n)|(\n)"\<close>\<close>

definition footer_re :: regex where
  "footer_re = Or (Group 1 (Cat (Plus (In [CatSpace])) (Lit NL))) (Group 2 (Lit NL))"

text \<open>
  \<open>list(filter(lambda e: e[-1], enumerate(map(lambda s: re.match(...) is not None,
  content))))[0][0]\<close>: indexing the empty list raises \<open>IndexError\<close>.
\<close>

definition footer_ix :: "tables \<Rightarrow> ustr list \<Rightarrow> error + nat" where
  "footer_ix U content =
     (case filter snd (enumerate 0 (map (\<lambda>s. re_match U footer_re s \<noteq> None) content)) of
        [] \<Rightarrow> Inl IndexError
      | e # _ \<Rightarrow> Inr (fst e))"

definition header_block :: "tables \<Rightarrow> ustr \<Rightarrow> error + ustr list" where
  "header_block U text =
     (let content = readlines (snd (readline text))
      in case footer_ix U content of
           Inl e \<Rightarrow> Inl e
         | Inr ix \<Rightarrow> Inr (take ix content))"

text \<open>
  The two alternatives of the header pattern,
  \<open>(^[A-Z\<dots>].*[A-Z\<dots>a-z\<dots>%\<degree>|]])\<close> and \<open>(^[\WA-Z].*[A-Z\<dots>a-z\<dots>])\<close>. The Polish
  letters are written by code point, in the order of the source (with its repeated
  \<open>0x106\<close> and \<open>0x107\<close>). In the first alternative the set closes at the first
  \<open>]\<close>, and the second \<open>]\<close> is a literal.
\<close>

definition upper_set :: "item list" where
  "upper_set = [Range 65 90, Chr 260, Chr 280, Chr 262, Chr 323, Chr 379, Chr 377, Chr 346,
                Chr 262]"

definition letter_set :: "item list" where
  "letter_set = upper_set @
     [Range 97 122, Chr 261, Chr 281, Chr 263, Chr 324, Chr 380, Chr 378, Chr 347, Chr 263]"

definition pattern_A :: regex where
  "pattern_A =
     Group 1 (cat [Bol, One (In upper_set), Star Dot,
                   One (In (letter_set @ [Chr 37, Chr 176, Chr 124])), Lit RBRACKET])"

definition pattern_B :: regex where
  "pattern_B =
     Group 2 (cat [Bol, One (In [CatNotWord, Range 65 90]), Star Dot, One (In letter_set)])"

definition headers_re :: regex where
  "headers_re = Or pattern_A pattern_B"

text \<open>
  \<open>re.findall\<close> for a pattern with \<open>n \<ge> 2\<close> groups: the subject is scanned from left
  to right; each match contributes the tuple of its groups, an unset group giving the
  empty string; the scan goes on where the match stopped. (The patterns here never
  match the empty string.)
\<close>

definition group_strings :: "nat \<Rightarrow> (nat \<rightharpoonup> ustr) \<Rightarrow> ustr list" where
  "group_strings n g = map (\<lambda>k. case g k of None \<Rightarrow> [] | Some t \<Rightarrow> t) [1 ..< Suc n]"

function findall_from :: "tables \<Rightarrow> regex \<Rightarrow> nat \<Rightarrow> ustr \<Rightarrow> nat \<Rightarrow> ustr list list" where
  "findall_from U p n s pos =
     (if length s < pos then []
      else (case ends U p (pos, drop pos s, Map.empty) of
              [] \<Rightarrow> findall_from U p n s (Suc pos)
            | (j, r, g) # _ \<Rightarrow>
                group_strings n g # findall_from U p n s (if pos < j then j else Suc pos)))"
  by pat_completeness auto
termination
  by (relation "measure (\<lambda>(U, p, n, s, pos). Suc (length s) - pos)") auto

definition findall :: "tables \<Rightarrow> regex \<Rightarrow> nat \<Rightarrow> ustr \<Rightarrow> ustr list list" where
  "findall U p n s = findall_from U p n s 0"

text \<open>\<open>lambda e: tuple(filter(lambda s: not s=='', e[0]))[0]\<close>\<close>

definition first_capture :: "ustr list list \<Rightarrow> error + ustr" where
  "first_capture e =
     (case e of
        [] \<Rightarrow> Inl IndexError
      | t # _ \<Rightarrow> (case filter (\<lambda>s. s \<noteq> []) t of [] \<Rightarrow> Inl IndexError | h # _ \<Rightarrow> Inr h))"

definition header_of_line :: "tables \<Rightarrow> ustr \<Rightarrow> error + ustr" where
  "header_of_line U line = first_capture (findall U headers_re 2 line)"

fun map_raising :: "('a \<Rightarrow> error + 'b) \<Rightarrow> 'a list \<Rightarrow> error + 'b list" where
  "map_raising f [] = Inr []"
| "map_raising f (x # xs) =
     (case f x of
        Inl e \<Rightarrow> Inl e
      | Inr y \<Rightarrow> (case map_raising f xs of Inl e \<Rightarrow> Inl e | Inr ys \<Rightarrow> Inr (y # ys)))"

definition get_headers_from_info_file :: "tables \<Rightarrow> ustr \<Rightarrow> error + ustr list" where
  "get_headers_from_info_file U text =
     (case header_block U text of
        Inl e \<Rightarrow> Inl e
      | Inr content \<Rightarrow> map_raising (header_of_line U) content)"

section \<open>Fetcher\<close>

text \<open>
  The world of \<open>download_url\<close>: the contents of the files by path, whether \<open>open(path, 'wb')\<close>
  succeeds for a path, and what has been printed. \<open>iter_content\<close> of a response lists
  what the stream yields for a chunk size; an \<open>Inl\<close> is the stream raising there.
  A call returns the exception that escapes it, if any, and the world it leaves.
\<close>

record world =
  contents :: "ustr \<rightharpoonup> nat list"
  can_open :: "ustr \<Rightarrow> bool"
  stdout :: "ustr list"

definition print :: "ustr \<Rightarrow> world \<Rightarrow> world" where
  "print msg w = w\<lparr>stdout := stdout w @ [msg]\<rparr>"

definition fd_write :: "ustr \<Rightarrow> nat list \<Rightarrow> world \<Rightarrow> world" where
  "fd_write path chunk w =
     w\<lparr>contents := (contents w)(path \<mapsto> (case contents w path of None \<Rightarrow> [] | Some b \<Rightarrow> b) @ chunk)\<rparr>"

text \<open>The loop over the chunks: \<open>True\<close> when it ran to its end, \<open>False\<close> when it raised.\<close>

fun write_chunks :: "ustr \<Rightarrow> (error + nat list) list \<Rightarrow> world \<Rightarrow> bool \<times> world" where
  "write_chunks path [] w = (True, w)"
| "write_chunks path (Inl e # cs) w = (False, w)"
| "write_chunks path (Inr chunk # cs) w = write_chunks path cs (fd_write path chunk w)"

definition download_url ::
  "(ustr \<Rightarrow> error + response) \<Rightarrow> ustr \<Rightarrow> ustr \<Rightarrow> nat \<Rightarrow> world \<Rightarrow> (error + unit) \<times> world" where
  "download_url requests_get url save_path chunk_size w =
     (case requests_get url of
        Inl e \<Rightarrow> (Inl e, w)
      | Inr r \<Rightarrow>
          if status_code r = 200 then
            (if can_open w save_path then
               (case write_chunks save_path (iter_content r chunk_size)
                       (w\<lparr>contents := (contents w)(save_path \<mapsto> [])\<rparr>) of
                  (True, w') \<Rightarrow> (Inr (), w')
                | (False, w') \<Rightarrow> (Inr (), print (str ''Unable to download the file.'') w'))
             else (Inr (), print (str ''Unable to download the file.'') w))
          else
            (Inr (),
             print (str ''File does not exist. Is URL proper? Unable to download the file.'') w))"

section \<open>Merger\<close>

text \<open>
  A data frame is its column labels and its rows; a cell is \<open>None\<close> where pandas has
  \<open>NaN\<close>. \<open>pd.read_csv(path, header=None, \<dots>)\<close> and \<open>os.listdir\<close> are parameters.
  \<open>pd.concat\<close> raises \<open>ValueError\<close> on an empty list; otherwise the columns of the
  result are the labels of the frames in order of first appearance and every row is
  laid out by label, with \<open>NaN\<close> where its frame lacks the column. Assigning
  \<open>df.columns\<close> raises \<open>ValueError\<close> when the number of labels differs.
\<close>

datatype label = IntLabel nat | StrLabel ustr

record 'c frame =
  columns :: "label list"
  rows :: "'c option list list"

definition first_seen :: "'a list \<Rightarrow> 'a list" where
  "first_seen xs = fold (\<lambda>x acc. if x \<in> set acc then acc else acc @ [x]) xs []"

definition reindex :: "label list \<Rightarrow> label list \<Rightarrow> 'c option list \<Rightarrow> 'c option list" where
  "reindex old new row =
     map (\<lambda>c. case map_of (zip old row) c of None \<Rightarrow> None | Some v \<Rightarrow> v) new"

definition pd_concat :: "'c frame list \<Rightarrow> error + 'c frame" where
  "pd_concat objs =
     (if objs = [] then Inl ValueError
      else (let cols = first_seen (concat (map columns objs))
            in Inr \<lparr>columns = cols,
                    rows = concat (map (\<lambda>f. map (reindex (columns f) cols) (rows f)) objs)\<rparr>))"

definition set_columns :: "'c frame \<Rightarrow> ustr list \<Rightarrow> error + 'c frame" where
  "set_columns df headers =
     (if length headers = length (columns df)
      then Inr (df\<lparr>columns := map StrLabel headers\<rparr>) else Inl ValueError)"

text \<open>\<open>os.path.join\<close> of two parts, on a POSIX system.\<close>

definition os_path_join :: "ustr \<Rightarrow> ustr \<Rightarrow> ustr" where
  "os_path_join a b =
     (if b \<noteq> [] \<and> hd b = SLASH then b
      else if a = [] \<or> last a = SLASH then a @ b
      else a @ [SLASH] @ b)"

text \<open>
  \<open>fname.endswith(".csv")\<close> and \<open>f_name_pattern is None or re.match(f_name_pattern,
  fname)\<close>.
\<close>

definition selected :: "tables \<Rightarrow> regex option \<Rightarrow> ustr \<Rightarrow> bool" where
  "selected U f_name_pattern fname =
     (endswith fname (str ''.csv'') \<and>
      (case f_name_pattern of None \<Rightarrow> True | Some p \<Rightarrow> matches U p fname))"

fun read_selected ::
  "tables \<Rightarrow> (ustr \<Rightarrow> error + 'c frame) \<Rightarrow> ustr \<Rightarrow> regex option \<Rightarrow> ustr list \<Rightarrow>
     error + 'c frame list" where
  "read_selected U read_csv csv_dir pat [] = Inr []"
| "read_selected U read_csv csv_dir pat (fname # fnames) =
     (if selected U pat fname then
        (case read_csv (os_path_join csv_dir fname) of
           Inl e \<Rightarrow> Inl e
         | Inr df \<Rightarrow>
             (case read_selected U read_csv csv_dir pat fnames of
                Inl e \<Rightarrow> Inl e
              | Inr dfs \<Rightarrow> Inr (df # dfs)))
      else read_selected U read_csv csv_dir pat fnames)"

definition merge_imgw_csv_files ::
  "tables \<Rightarrow> (ustr \<Rightarrow> error + ustr list) \<Rightarrow> (ustr \<Rightarrow> error + 'c frame) \<Rightarrow> ustr \<Rightarrow>
     ustr list option \<Rightarrow> regex option \<Rightarrow> error + 'c frame" where
  "merge_imgw_csv_files U listdir read_csv csv_dir headers f_name_pattern =
     (case listdir csv_dir of
        Inl e \<Rightarrow> Inl e
      | Inr fnames \<Rightarrow>
          (case read_selected U read_csv csv_dir f_name_pattern fnames of
             Inl e \<Rightarrow> Inl e
           | Inr csv_files \<Rightarrow>
               (case pd_concat csv_files of
                  Inl e \<Rightarrow> Inl e
                | Inr df \<Rightarrow>
                    (case headers of None \<Rightarrow> Inr df | Some h \<Rightarrow> set_columns df h))))"

section \<open>Directory manager\<close>

text \<open>
  The file system is a tree of files and directories; a directory lists its entries by
  name. A path is the list of names from the root of the tree. Links and permissions are
  not modelled. \<open>os.remove\<close> deletes an entry that is a file, \<open>os.rmdir\<close> an entry that
  is an empty directory; either raises \<open>OSError\<close> otherwise and leaves the tree as it was.
\<close>

datatype fsnode = File "nat list" | Dir "(ustr \<times> fsnode) list"

type_synonym path = "ustr list"

fun is_file :: "fsnode \<Rightarrow> bool" where
  "is_file (File b) = True"
| "is_file (Dir es) = False"

fun is_dir :: "fsnode \<Rightarrow> bool" where
  "is_dir (File b) = False"
| "is_dir (Dir es) = True"

fun lookup :: "fsnode \<Rightarrow> path \<Rightarrow> fsnode option" where
  "lookup t [] = Some t"
| "lookup t (x # p) =
     (case t of
        File b \<Rightarrow> None
      | Dir es \<Rightarrow> (case map_of es x of None \<Rightarrow> None | Some c \<Rightarrow> lookup c p))"

definition upd :: "ustr \<Rightarrow> fsnode \<Rightarrow> (ustr \<times> fsnode) list \<Rightarrow> (ustr \<times> fsnode) list" where
  "upd x v es = map (\<lambda>e. if fst e = x then (x, v) else e) es"

definition del :: "ustr \<Rightarrow> (ustr \<times> fsnode) list \<Rightarrow> (ustr \<times> fsnode) list" where
  "del x es = filter (\<lambda>e. fst e \<noteq> x) es"

fun delete_entry :: "(fsnode \<Rightarrow> bool) \<Rightarrow> fsnode \<Rightarrow> path \<Rightarrow> error + fsnode" where
  "delete_entry ok t [] = Inl OSError"
| "delete_entry ok t (x # p) =
     (case t of
        File b \<Rightarrow> Inl OSError
      | Dir es \<Rightarrow>
          (case map_of es x of
             None \<Rightarrow> Inl OSError
           | Some c \<Rightarrow>
               if p = [] then (if ok c then Inr (Dir (del x es)) else Inl OSError)
               else (case delete_entry ok c p of
                       Inl e \<Rightarrow> Inl e
                     | Inr c' \<Rightarrow> Inr (Dir (upd x c' es)))))"

definition os_remove :: "fsnode \<Rightarrow> path \<Rightarrow> error + fsnode" where
  "os_remove t p = delete_entry is_file t p"

definition os_rmdir :: "fsnode \<Rightarrow> path \<Rightarrow> error + fsnode" where
  "os_rmdir t p = delete_entry (\<lambda>c. c = Dir []) t p"

text \<open>
  \<open>os.walk(root, topdown=False)\<close>: the triple of a directory comes after the triples of
  its subdirectories; a directory is listed before anything below it is visited.
\<close>

definition dirs_of :: "(ustr \<times> fsnode) list \<Rightarrow> ustr list" where
  "dirs_of es = map fst (filter (\<lambda>e. is_dir (snd e)) es)"

definition files_of :: "(ustr \<times> fsnode) list \<Rightarrow> ustr list" where
  "files_of es = map fst (filter (\<lambda>e. is_file (snd e)) es)"

fun walk :: "path \<Rightarrow> fsnode \<Rightarrow> (path \<times> ustr list \<times> ustr list) list" where
  "walk root (File b) = []"
| "walk root (Dir es) =
     concat (map (\<lambda>e. walk (root @ [fst e]) (snd e)) (filter (\<lambda>e. is_dir (snd e)) es)) @
     [(root, dirs_of es, files_of es)]"

text \<open>
  The loops of \<open>clean_directories\<close>. Each returns the exception that escapes it, if
  any, and the tree as it is then.
\<close>

fun remove_files :: "path \<Rightarrow> ustr list \<Rightarrow> fsnode \<Rightarrow> (error + unit) \<times> fsnode" where
  "remove_files root [] t = (Inr (), t)"
| "remove_files root (f # fs) t =
     (case os_remove t (root @ [f]) of
        Inl e \<Rightarrow> (Inl e, t)
      | Inr t' \<Rightarrow> remove_files root fs t')"

fun remove_dirs :: "path \<Rightarrow> ustr list \<Rightarrow> fsnode \<Rightarrow> (error + unit) \<times> fsnode" where
  "remove_dirs root [] t = (Inr (), t)"
| "remove_dirs root (d # ds) t =
     (case os_rmdir t (root @ [d]) of
        Inl e \<Rightarrow> (Inl e, t)
      | Inr t' \<Rightarrow> remove_dirs root ds t')"

fun clean_walk :: "(path \<times> ustr list \<times> ustr list) list \<Rightarrow> fsnode \<Rightarrow> (error + unit) \<times> fsnode" where
  "clean_walk [] t = (Inr (), t)"
| "clean_walk ((root, dirs, files) # ws) t =
     (case remove_files root files t of
        (Inl e, t') \<Rightarrow> (Inl e, t')
      | (Inr u, t') \<Rightarrow>
          (case remove_dirs root dirs t' of
             (Inl e, t'') \<Rightarrow> (Inl e, t'')
           | (Inr u, t'') \<Rightarrow> clean_walk ws t''))"

record disk =
  tree :: fsnode
  printed :: "ustr list"

definition render :: "path \<Rightarrow> ustr" where
  "render p = concat (map (\<lambda>n. SLASH # n) p)"

definition clean_directories :: "path \<Rightarrow> disk \<Rightarrow> (error + unit) \<times> disk" where
  "clean_directories main_directory d =
     (case lookup (tree d) main_directory of
        Some node \<Rightarrow>
          (let d' = d\<lparr>printed := printed d @
                      [str ''path exists - removing contents of '' @ render main_directory]\<rparr>
           in case clean_walk (walk main_directory node) (tree d) of
                (r, t) \<Rightarrow> (r, d'\<lparr>tree := t\<rparr>))
      | None \<Rightarrow>
          (Inr (),
           d\<lparr>printed := printed d @
              [str ''Path '' @ render main_directory @
               str '' doesn't exist. This folder has to be created manually.'']\<rparr>))"

section \<open>Notions used in the properties\<close>

text \<open>A date directory name: four digits, or four digits, an underscore and four digits.\<close>

definition four_digits :: "tables \<Rightarrow> ustr \<Rightarrow> bool" where
  "four_digits U N = (length N = 4 \<and> list_all (is_digit U) N)"

definition date_name :: "tables \<Rightarrow> ustr \<Rightarrow> bool" where
  "date_name U N =
     (four_digits U N \<or>
      (length N = 9 \<and> four_digits U (take 4 N) \<and> N ! 4 = UNDERSCORE \<and>
       four_digits U (drop 5 N)))"

text \<open>The stem of an info file name: a non-empty run of word characters.\<close>

definition info_name :: "tables \<Rightarrow> ustr \<Rightarrow> bool" where
  "info_name U W = (W \<noteq> [] \<and> list_all (is_word U) W)"



text \<open>
  The character sets of the header pattern, spelled out, and the place \<open>k\<close> of a
  character of the last set that is followed at once by \<open>]\<close>, with no newline before it.
\<close>

definition upper_letter :: "nat \<Rightarrow> bool" where
  "upper_letter c = ((65 \<le> c \<and> c \<le> 90) \<or> c \<in> set [260, 280, 262, 323, 379, 377, 346])"

definition letter :: "nat \<Rightarrow> bool" where
  "letter c =
     (upper_letter c \<or> (97 \<le> c \<and> c \<le> 122) \<or> c \<in> set [261, 281, 263, 324, 380, 378, 347])"

definition before_bracket :: "nat \<Rightarrow> bool" where
  "before_bracket c = (letter c \<or> c \<in> set [37, 176, 124])"

definition bracket_at :: "ustr \<Rightarrow> nat \<Rightarrow> bool" where
  "bracket_at rest k =
     (Suc k < length rest \<and> NL \<notin> set (take k rest) \<and>
      before_bracket (rest ! k) \<and> rest ! Suc k = RBRACKET)"

text \<open>
  Pattern A in the words of the specification: the line starts with an uppercase letter
  and ends with a letter, one of \<open>%\<close>, \<open>\<degree>\<close>, \<open>|\<close>, or a closing bracket.
\<close>

definition spec_pattern_A :: "ustr \<Rightarrow> bool" where
  "spec_pattern_A line =
     (line \<noteq> [] \<and> upper_letter (hd line) \<and>
      (letter (last line) \<or> last line \<in> set [37, 176, 124] \<or> last line = RBRACKET))"

text \<open>A frame as \<open>read_csv\<close> gives it for a file of two columns and \<open>n\<close> rows.\<close>

definition two_columns :: "'c frame \<Rightarrow> nat \<Rightarrow> bool" where
  "two_columns f n =
     (columns f = [IntLabel 0, IntLabel 1] \<and> length (rows f) = n \<and>
      list_all (\<lambda>r. length r = 2) (rows f))"

text \<open>A well-formed tree: the names of the entries of every directory are distinct.\<close>

fun well_formed :: "fsnode \<Rightarrow> bool" where
  "well_formed (File b) = True"
| "well_formed (Dir es) = (distinct (map fst es) \<and> list_all (\<lambda>e. well_formed (snd e)) es)"

text \<open>The tree with the node at a path replaced.\<close>

fun put :: "fsnode \<Rightarrow> path \<Rightarrow> fsnode \<Rightarrow> fsnode" where
  "put t [] s = s"
| "put t (x # p) s =
     (case t of
        File b \<Rightarrow> t
      | Dir es \<Rightarrow> (case map_of es x of None \<Rightarrow> t | Some c \<Rightarrow> Dir (upd x (put c p s) es)))"

text \<open>A triple of the walk, seen from above a path; a listing with some directories emptied.\<close>

definition under :: "path \<Rightarrow> path \<times> ustr list \<times> ustr list \<Rightarrow> path \<times> ustr list \<times> ustr list" where
  "under p w = (p @ fst w, snd w)"

definition emptied :: "ustr set \<Rightarrow> (ustr \<times> fsnode) list \<Rightarrow> (ustr \<times> fsnode) list" where
  "emptied N cur = map (\<lambda>e. if fst e \<in> N then (fst e, Dir []) else e) cur"

section \<open>Sample inputs\<close>

text \<open>A table for the characters used in the examples: the Polish letters and the degree sign.\<close>

definition sample_tables :: tables where
  "sample_tables =
     \<lparr>digit_ext = (\<lambda>c. False),
      alnum_ext = (\<lambda>c. c \<in> set [260, 261, 262, 263, 280, 281, 321, 322, 323, 324, 211, 243,
                                  346, 347, 377, 378, 379, 380]),
      space_ext = (\<lambda>c. c = 133 \<or> c = 160)\<rparr>"

definition link :: "ustr \<Rightarrow> node" where
  "link s = Tag (str ''a'') [NavigableString s]"

definition date_table :: node where
  "date_table =
     Tag (str ''table'')
       [Tag (str ''tr'') [Tag (str ''td'') [link (str ''2001/'')]],
        link (str ''x.txt''),
        Tag (str ''tr'') [link (str ''1951_1955/''), link (str ''2001/'')]]"

definition newline_after_slash :: node where
  "newline_after_slash = Tag (str ''table'') [link (str ''2001/'' @ [NL])]"

definition info_table :: node where
  "info_table =
     Tag (str ''table'') [link (str ''2001/''), link (str ''k_d.txt''), link (str ''a-b.txt'')]"

definition hyphen_table :: node where
  "hyphen_table = Tag (str ''table'') [link (str ''a-b.txt'')]"

definition parent_link_table :: node where
  "parent_link_table =
     Tag (str ''table'')
       [link (str ''k_d.txt''),
        Tag (str ''a'') [Tag (str ''img'') [], NavigableString (str '' Parent'')]]"

definition nested_link_table :: node where
  "nested_link_table =
     Tag (str ''table'')
       [link (str ''2001/''),
        Tag (str ''a'') [Tag (str ''b'') [NavigableString (str ''2002'')],
                         NavigableString (str ''/'')]]"




definition paragraph_page :: node where
  "paragraph_page =
     Tag (str ''[document]'') [Tag (str ''p'') [NavigableString (str ''moved'')]]"

definition listing_page :: node where
  "listing_page =
     Tag (str ''[document]'')
       [Tag (str ''p'') [NavigableString (str ''Index'')],
        Tag (str ''div'') [Tag (str ''table'') [link (str ''2001/'')]],
        Tag (str ''table'') []]"

definition sample_response :: "nat \<Rightarrow> response" where
  "sample_response code =
     \<lparr>status_code = code, body = str ''x'', iter_content = (\<lambda>n. [Inr (str ''x'')])\<rparr>"

definition always_responds :: "nat \<Rightarrow> ustr \<Rightarrow> error + response" where
  "always_responds code url = Inr (sample_response code)"

definition never_connects :: "ustr \<Rightarrow> error + response" where
  "never_connects url = Inl ConnectionError"

definition parses_to :: "node \<Rightarrow> nat list \<Rightarrow> node" where
  "parses_to soup page_content = soup"

definition sample_world :: world where
  "sample_world =
     \<lparr>contents = [str ''old.zip'' \<mapsto> str ''data''], can_open = (\<lambda>p. True), stdout = []\<rparr>"

definition sample_frame :: "nat \<Rightarrow> nat \<Rightarrow> nat frame" where
  "sample_frame n v =
     \<lparr>columns = [IntLabel 0, IntLabel 1], rows = replicate n [Some v, None]\<rparr>"

definition sample_listdir :: "ustr \<Rightarrow> error + ustr list" where
  "sample_listdir d = Inr [str ''a.csv'', str ''notes.txt'', str ''b.csv'', str ''c.csv'']"

definition sample_read_csv :: "ustr \<Rightarrow> error + nat frame" where
  "sample_read_csv path =
     (if path = str ''d/a.csv'' then Inr (sample_frame 10 1)
      else if path = str ''d/b.csv'' then Inr (sample_frame 5 2)
      else if path = str ''d/c.csv'' then Inr (sample_frame 7 3)
      else Inl OSError)"

definition no_csv_listdir :: "ustr \<Rightarrow> error + ustr list" where
  "no_csv_listdir d = Inr [str ''notes.txt'', str ''a.zip'']"

definition sample_tree :: fsnode where
  "sample_tree =
     Dir [(str ''data'',
           Dir [(str ''a.zip'', File (str ''x'')),
                (str ''csv'', Dir [(str ''1.csv'', File (str ''y'')), (str ''old'', Dir [])]),
                (str ''b.txt'', File [])]),
          (str ''keep.txt'', File (str ''k''))]"

section \<open>Facts about the matcher\<close>

lemma le_length_takeWhile:
  "n \<le> length (takeWhile P r) \<longleftrightarrow> n \<le> length r \<and> list_all P (take n r)"
proof (induction r arbitrary: n)
  case Nil
  then show ?case by simp
next
  case (Cons x xs)
  then show ?case by (cases n) auto
qed

lemma accepts_digit: "accepts U (In [CatDigit]) = is_digit U"
  by (rule ext) simp

lemma accepts_word: "accepts U (In [CatWord]) = is_word U"
  by (rule ext) simp

lemma ends_Lit:
  "ends U (Lit c) (i, r, g) = (if r \<noteq> [] \<and> hd r = c then [(Suc i, tl r, g)] else [])"
  by (cases r) (simp_all add: Lit_def)

lemma ends_Dot:
  "ends U (One Dot) (i, r, g) = (if r \<noteq> [] \<and> hd r \<noteq> NL then [(Suc i, tl r, g)] else [])"
  by (cases r) simp_all

lemma ends_Times_digit:
  "ends U (Times n (In [CatDigit])) (i, r, g) =
     (if n \<le> length r \<and> list_all (is_digit U) (take n r) then [(i + n, drop n r, g)] else [])"
  by (simp add: le_length_takeWhile accepts_digit del: accepts.simps)

lemma matches_nonempty: "matches U p s \<longleftrightarrow> ends U p (0, s, Map.empty) \<noteq> []"
  by (simp add: matches_def re_match_def split: list.splits)

lemma ends_Cat_nonempty:
  "ends U (Cat a b) st \<noteq> [] \<longleftrightarrow> (\<exists>st' \<in> set (ends U a st). ends U b st' \<noteq> [])"
  by auto

lemma set_ends_Group_Plus:
  "set (ends U (Group n (Plus c)) (0, s, g)) =
     (\<lambda>k. (k, drop k s, g(n \<mapsto> take k s))) `
       {k. 1 \<le> k \<and> k \<le> length (takeWhile (accepts U c) s)}"
  by (auto simp: image_iff)

lemma endswith_append: "endswith (P @ suffix) suffix"
  by (simp add: endswith_def)

subsection \<open>The date pattern\<close>

lemma slash_tail:
  "(r \<noteq> [] \<and> hd r = c \<and> (tl r = [] \<or> tl r = [NL])) \<longleftrightarrow> (r = [c] \<or> r = [c, NL])"
  by (cases r) auto

lemma year_alt_raw:
  "ends U (cat [Bol, Times 4 (In [CatDigit]), Lit SLASH, Eol]) (0, s, g) \<noteq> [] \<longleftrightarrow>
   (4 \<le> length s \<and> list_all (is_digit U) (take 4 s) \<and>
      (drop 4 s = [SLASH] \<or> drop 4 s = [SLASH, NL]))"
  by (simp add: ends_Lit ends_Times_digit slash_tail [symmetric] del: ends.simps(1,4))

lemma range_alt_raw:
  "ends U (cat [Bol, Times 4 (In [CatDigit]), Lit UNDERSCORE, Times 4 (In [CatDigit]),
              Lit SLASH, Eol]) (0, s, g) \<noteq> [] \<longleftrightarrow>
   (4 \<le> length s \<and> list_all (is_digit U) (take 4 s) \<and>
    drop 4 s \<noteq> [] \<and> hd (drop 4 s) = UNDERSCORE \<and>
    4 \<le> length (tl (drop 4 s)) \<and> list_all (is_digit U) (take 4 (tl (drop 4 s))) \<and>
    (drop 4 (tl (drop 4 s)) = [SLASH] \<or> drop 4 (tl (drop 4 s)) = [SLASH, NL]))"
  by (simp add: ends_Lit ends_Times_digit slash_tail [symmetric] del: ends.simps(1,4))

lemma range_alt_idx:
  "ends U (cat [Bol, Times 4 (In [CatDigit]), Lit UNDERSCORE, Times 4 (In [CatDigit]),
              Lit SLASH, Eol]) (0, s, g) \<noteq> [] \<longleftrightarrow>
   (9 \<le> length s \<and> list_all (is_digit U) (take 4 s) \<and> s ! 4 = UNDERSCORE \<and>
    list_all (is_digit U) (take 4 (drop 5 s)) \<and>
    (drop 9 s = [SLASH] \<or> drop 9 s = [SLASH, NL]))"
proof -
  have t: "tl (drop 4 s) = drop 5 s"
    using drop_Suc [of 4 s] by (simp add: tl_drop)
  have d: "drop 4 (drop 5 s) = drop 9 s" by simp
  have l: "4 \<le> length (drop 5 s) \<longleftrightarrow> 9 \<le> length s" by auto
  have h: "9 \<le> length s \<Longrightarrow> hd (drop 4 s) = s ! 4"
    by (simp add: hd_drop_conv_nth)
  have n: "9 \<le> length s \<Longrightarrow> drop 4 s \<noteq> []" by simp
  show ?thesis
    unfolding range_alt_raw t d l using h n by auto
qed

lemma matches_dates_iff:
  "matches U dates_re s \<longleftrightarrow>
     (\<exists>N. date_name U N \<and> (s = N @ [SLASH] \<or> s = N @ [SLASH, NL]))"
  (is "?L \<longleftrightarrow> ?R")
proof
  assume ?L
  then consider
    (year) "4 \<le> length s" "list_all (is_digit U) (take 4 s)"
           "drop 4 s = [SLASH] \<or> drop 4 s = [SLASH, NL]"
  | (range) "9 \<le> length s" "list_all (is_digit U) (take 4 s)" "s ! 4 = UNDERSCORE"
           "list_all (is_digit U) (take 4 (drop 5 s))"
           "drop 9 s = [SLASH] \<or> drop 9 s = [SLASH, NL]"
    unfolding matches_nonempty dates_re_def ends.simps(8)
    using year_alt_raw [of U s Map.empty] range_alt_idx [of U s Map.empty] by auto
  then show ?R
  proof cases
    case year
    have n: "date_name U (take 4 s)"
      using year(1,2) by (simp add: date_name_def four_digits_def)
    have "s = take 4 s @ drop 4 s" by simp
    with year(3) have "s = take 4 s @ [SLASH] \<or> s = take 4 s @ [SLASH, NL]" by metis
    with n show ?thesis by blast
  next
    case range
    have e: "drop 5 (take 9 s) = take 4 (drop 5 s)" by (simp add: drop_take)
    have "length (take 4 (drop 5 s)) = 4" using range(1) by simp
    with range(4) have f: "four_digits U (drop 5 (take 9 s))"
      unfolding e four_digits_def by simp
    have "length (take 9 s) = 9" "take 4 (take 9 s) = take 4 s" "take 9 s ! 4 = s ! 4"
      using range(1) by simp_all
    with range(1-3) f have n: "date_name U (take 9 s)"
      by (simp add: date_name_def four_digits_def)
    have "s = take 9 s @ drop 9 s" by simp
    with range(5) have "s = take 9 s @ [SLASH] \<or> s = take 9 s @ [SLASH, NL]" by metis
    with n show ?thesis by blast
  qed
next
  assume ?R
  then obtain N where N: "date_name U N" and s: "s = N @ [SLASH] \<or> s = N @ [SLASH, NL]"
    by blast
  from N show ?L unfolding date_name_def
  proof
    assume "four_digits U N"
    then have "ends U (cat [Bol, Times 4 (In [CatDigit]), Lit SLASH, Eol])
        (0, s, Map.empty) \<noteq> []"
      unfolding year_alt_raw using s by (auto simp: four_digits_def)
    then show ?L unfolding matches_nonempty dates_re_def ends.simps(8) by simp
  next
    assume a: "length N = 9 \<and> four_digits U (take 4 N) \<and> N ! 4 = UNDERSCORE \<and>
      four_digits U (drop 5 N)"
    then have "ends U (cat [Bol, Times 4 (In [CatDigit]), Lit UNDERSCORE,
        Times 4 (In [CatDigit]), Lit SLASH, Eol]) (0, s, Map.empty) \<noteq> []"
      unfolding range_alt_idx using s by (auto simp: four_digits_def nth_append)
    then show ?L unfolding matches_nonempty dates_re_def ends.simps(8) by simp
  qed
qed

lemma digit_not_slash: "is_digit U c \<Longrightarrow> c \<noteq> SLASH"
  by (auto simp: is_digit_def SLASH_def)

lemma four_digits_no_slash: "four_digits U N \<Longrightarrow> replace_slash N = N"
  unfolding four_digits_def replace_slash_def
  by (auto simp: list_all_iff filter_id_conv dest: digit_not_slash)

lemma date_name_no_slash:
  assumes "date_name U N"
  shows "replace_slash N = N"
proof -
  from assms consider "four_digits U N"
    | "length N = 9" "four_digits U (take 4 N)" "N ! 4 = UNDERSCORE" "four_digits U (drop 5 N)"
    unfolding date_name_def by blast
  then show ?thesis
  proof cases
    case 1
    then show ?thesis by (rule four_digits_no_slash)
  next
    case 2
    have "N = take 4 N @ drop 4 N" by simp
    also have "drop 4 N = N ! 4 # drop 5 N"
      using 2(1) Cons_nth_drop_Suc [of 4 N] by simp
    finally have N: "N = take 4 N @ UNDERSCORE # drop 5 N" using 2(3) by simp
    have "replace_slash N = replace_slash (take 4 N) @ replace_slash [UNDERSCORE]
        @ replace_slash (drop 5 N)"
      by (subst N) (simp add: replace_slash_def)
    also have "\<dots> = take 4 N @ [UNDERSCORE] @ drop 5 N"
      using four_digits_no_slash [OF 2(2)] four_digits_no_slash [OF 2(4)]
      by (simp add: replace_slash_def UNDERSCORE_def SLASH_def)
    finally show ?thesis using N by simp
  qed
qed

subsection \<open>The info-file pattern\<close>

lemma txt_tail_raw:
  "ends U (cat [One Dot, Lit 116, Lit 120, Lit 116, Eol]) (i, r, g) \<noteq> [] \<longleftrightarrow>
     (r \<noteq> [] \<and> hd r \<noteq> NL \<and> (tl r = [116, 120, 116] \<or> tl r = [116, 120, 116, NL]))"
proof (cases r)
  case Nil
  then show ?thesis by (simp add: ends_Dot del: ends.simps(1))
next
  case (Cons c r1)
  show ?thesis
  proof (cases r1)
    case Nil
    with Cons show ?thesis by (simp add: ends_Dot ends_Lit del: ends.simps(1))
  next
    case (Cons c1 r2)
    note r1 = this
    show ?thesis
    proof (cases r2)
      case Nil
      with r1 \<open>r = c # r1\<close> show ?thesis by (simp add: ends_Dot ends_Lit del: ends.simps(1))
    next
      case (Cons c2 r3)
      note r2 = this
      show ?thesis
      proof (cases r3)
        case Nil
        with r1 r2 \<open>r = c # r1\<close> show ?thesis
          by (simp add: ends_Dot ends_Lit del: ends.simps(1))
      next
        case (Cons c3 r4)
        with r1 r2 \<open>r = c # r1\<close> show ?thesis
          by (simp add: ends_Dot ends_Lit del: ends.simps(1))
      qed
    qed
  qed
qed

lemma matches_info_raw:
  "matches U info_re s \<longleftrightarrow>
     (\<exists>k. 1 \<le> k \<and> k \<le> length s \<and> list_all (is_word U) (take k s) \<and>
        drop k s \<noteq> [] \<and> hd (drop k s) \<noteq> NL \<and>
        (tl (drop k s) = [116, 120, 116] \<or> tl (drop k s) = [116, 120, 116, NL]))"
proof -
  let ?T = "cat [One Dot, Lit 116, Lit 120, Lit 116, Eol]"
  have e: "info_re = Cat (Group 1 (Plus (In [CatWord]))) ?T"
    by (simp add: info_re_def)
  have "matches U info_re s \<longleftrightarrow>
      (\<exists>st' \<in> set (ends U (Group 1 (Plus (In [CatWord]))) (0, s, Map.empty)).
          ends U ?T st' \<noteq> [])"
    unfolding matches_nonempty e by (rule ends_Cat_nonempty)
  also have "\<dots> \<longleftrightarrow> (\<exists>k. 1 \<le> k \<and> k \<le> length (takeWhile (is_word U) s) \<and>
      ends U ?T (k, drop k s, [1 \<mapsto> take k s]) \<noteq> [])"
    unfolding set_ends_Group_Plus accepts_word by blast
  finally show ?thesis
    unfolding txt_tail_raw le_length_takeWhile by blast
qed

lemma matches_info_iff:
  "matches U info_re s \<longleftrightarrow>
     (\<exists>W c. info_name U W \<and> c \<noteq> NL \<and>
        (s = W @ [c] @ str ''txt'' \<or> s = W @ [c] @ str ''txt'' @ [NL]))"
  (is "?L \<longleftrightarrow> ?R")
proof
  assume ?L
  then obtain k where k: "1 \<le> k" "k \<le> length s" "list_all (is_word U) (take k s)"
    "drop k s \<noteq> []" "hd (drop k s) \<noteq> NL"
    "tl (drop k s) = [116, 120, 116] \<or> tl (drop k s) = [116, 120, 116, NL]"
    unfolding matches_info_raw by blast
  have W: "info_name U (take k s)"
    using k(1-3) by (auto simp: info_name_def)
  have "s = take k s @ drop k s" by simp
  also have "drop k s = [hd (drop k s)] @ tl (drop k s)" using k(4) by simp
  finally have "s = take k s @ [hd (drop k s)] @ tl (drop k s)" .
  with k(6) have "s = take k s @ [hd (drop k s)] @ str ''txt'' \<or>
      s = take k s @ [hd (drop k s)] @ str ''txt'' @ [NL]"
    by (auto simp: str_def)
  with W k(5) show ?R by blast
next
  assume ?R
  then obtain W c where W: "info_name U W" "c \<noteq> NL"
    and s: "s = W @ [c] @ str ''txt'' \<or> s = W @ [c] @ str ''txt'' @ [NL]" by blast
  have "1 \<le> length W" using W(1) by (cases W) (simp_all add: info_name_def)
  moreover have "length W \<le> length s" using s by auto
  moreover have "take (length W) s = W" using s by auto
  moreover have "drop (length W) s = [c] @ str ''txt'' \<or>
      drop (length W) s = [c] @ str ''txt'' @ [NL]"
    using s by auto
  ultimately show ?L unfolding matches_info_raw using W
    by (intro exI [of _ "length W"]) (auto simp: info_name_def str_def)
qed

lemma word_not_slash: "is_word U c \<Longrightarrow> c \<noteq> SLASH"
  by (auto simp: is_word_def SLASH_def)

lemma info_name_no_slash: "info_name U W \<Longrightarrow> replace_slash W = W"
  unfolding info_name_def replace_slash_def
  by (auto simp: list_all_iff filter_id_conv dest: word_not_slash)

subsection \<open>The filtering loop\<close>

lemma keep_matching_eq:
  "keep_matching U p es =
     (if None \<in> set es then Inl TypeError
      else Inr (map replace_slash (filter (matches U p) (map the es))))"
proof (induction es)
  case Nil
  show ?case by simp
next
  case (Cons e es)
  show ?case
  proof (cases e)
    case None
    then show ?thesis by simp
  next
    case (Some s)
    with Cons show ?thesis by simp
  qed
qed

section \<open>Classifier: date directories\<close>

text \<open>
  Claim C6, as the code has it. If some link of the table yields no string the call
  raises \<open>TypeError\<close>. Otherwise the result is the kept link texts with their slashes
  removed, in table order and with duplicates kept. A link text is kept exactly when it
  is a date name \<open>N\<close> (four digits, or four digits, an underscore and four digits)
  followed by a slash, or by a slash and one final newline. For a date name \<open>N\<close> the
  text \<open>N/\<close> gives the entry \<open>N\<close>, so when every link yields a string \<open>N\<close> is in
  the result whenever the table has a link with text \<open>N/\<close>.
\<close>

theorem get_dates_from_table_keeps_date_names:
  "get_dates_from_table U t =
     (if None \<in> set (link_texts t) then Inl TypeError
      else Inr (map replace_slash (filter (matches U dates_re) (map the (link_texts t))))) \<and>
   (\<forall>T. matches U dates_re T \<longleftrightarrow>
          (\<exists>N. date_name U N \<and> (T = N @ [SLASH] \<or> T = N @ [SLASH, NL]))) \<and>
   (\<forall>N. date_name U N \<longrightarrow>
          replace_slash (N @ [SLASH]) = N \<and> replace_slash (N @ [SLASH, NL]) = N @ [NL]) \<and>
   (\<forall>N. date_name U N \<and> None \<notin> set (link_texts t) \<and>
          Some (N @ [SLASH]) \<in> set (link_texts t) \<longrightarrow>
          (\<exists>ds. get_dates_from_table U t = Inr ds \<and> N \<in> set ds))"
proof -
  have out: "get_dates_from_table U t =
     (if None \<in> set (link_texts t) then Inl TypeError
      else Inr (map replace_slash (filter (matches U dates_re) (map the (link_texts t)))))"
    by (simp add: get_dates_from_table_def keep_matching_eq)
  have strip: "replace_slash (N @ [SLASH]) = N \<and> replace_slash (N @ [SLASH, NL]) = N @ [NL]"
    if "date_name U N" for N
    using date_name_no_slash [OF that] by (simp add: replace_slash_def NL_def SLASH_def)
  have "\<exists>ds. get_dates_from_table U t = Inr ds \<and> N \<in> set ds"
    if "date_name U N" "None \<notin> set (link_texts t)" "Some (N @ [SLASH]) \<in> set (link_texts t)"
    for N
  proof -
    let ?ds = "map replace_slash (filter (matches U dates_re) (map the (link_texts t)))"
    have m: "matches U dates_re (N @ [SLASH])"
      unfolding matches_dates_iff using that(1) by blast
    have "the (Some (N @ [SLASH])) \<in> set (map the (link_texts t))"
      using that(3) unfolding set_map by (rule imageI)
    then have "N @ [SLASH] \<in> set (map the (link_texts t))" by simp
    with m have "N @ [SLASH] \<in> set (filter (matches U dates_re) (map the (link_texts t)))"
      by simp
    then have "replace_slash (N @ [SLASH]) \<in> set ?ds"
      unfolding set_map by (rule imageI)
    then have "N \<in> set ?ds" using strip [OF that(1)] by simp
    moreover have "get_dates_from_table U t = Inr ?ds" using out that(2) by simp
    ultimately show ?thesis by blast
  qed
  with out strip matches_dates_iff show ?thesis by blast
qed

theorem get_dates_from_table_keeps_date_names_witness:
  "None \<notin> set (link_texts date_table) \<and>
   Some (str ''1951_1955'' @ [SLASH]) \<in> set (link_texts date_table) \<and>
   date_name sample_tables (str ''1951_1955'') \<and>
   get_dates_from_table sample_tables date_table =
     Inr [str ''2001'', str ''1951_1955'', str ''2001''] \<and>
   None \<in> set (link_texts nested_link_table) \<and>
   get_dates_from_table sample_tables nested_link_table = Inl TypeError"
proof -
  have h: "None \<notin> set (link_texts date_table)"
    "Some (str ''1951_1955'' @ [SLASH]) \<in> set (link_texts date_table)"
    "None \<in> set (link_texts nested_link_table)"
    by code_simp+
  have d: "date_name sample_tables (str ''1951_1955'')"
    by code_simp
  have e: "map replace_slash (filter (matches sample_tables dates_re)
      (map the (link_texts date_table))) = [str ''2001'', str ''1951_1955'', str ''2001'']"
    by code_simp
  show ?thesis
    using h d
      get_dates_from_table_keeps_date_names [of sample_tables date_table]
      get_dates_from_table_keeps_date_names [of sample_tables nested_link_table]
    unfolding e by simp
qed

text \<open>
  The claim as it is worded fails in two ways. The link text \<open>2001/\n\<close> is not a
  directory name followed by a slash (it does not end in a slash), yet it gives the
  entry \<open>2001\n\<close>. And a table with the link \<open>2001/\<close> and a link that yields no
  string gives no list at all: the call raises.
\<close>

theorem get_dates_from_table_newline_counterexample:
  "link_texts newline_after_slash = [Some (str ''2001/'' @ [NL])] \<and>
   last (str ''2001/'' @ [NL]) \<noteq> SLASH \<and>
   \<not> date_name sample_tables (str ''2001'' @ [NL]) \<and>
   get_dates_from_table sample_tables newline_after_slash = Inr [str ''2001'' @ [NL]] \<and>
   link_texts nested_link_table = [Some (str ''2001/''), None] \<and>
   date_name sample_tables (str ''2001'') \<and>
   get_dates_from_table sample_tables nested_link_table = Inl TypeError"
  by code_simp

section \<open>Classifier: info files\<close>

text \<open>
  Claim C5, as the code has it. If some link of the table yields no string the call
  raises \<open>TypeError\<close>. Otherwise the result is the kept link texts in table order. A
  name \<open>W.txt\<close> is kept, verbatim, when \<open>W\<close> is a non-empty run of word characters,
  and a name \<open>P.txt\<close> is dropped when \<open>P\<close> is empty or has a character that is not a
  word character; a name that ends neither in \<open>txt\<close> nor in \<open>txt\<close> and a newline is
  dropped.
\<close>

theorem get_info_files_from_table_keeps_word_txt:
  "get_info_files_from_table U t =
     (if None \<in> set (link_texts t) then Inl TypeError
      else Inr (map replace_slash (filter (matches U info_re) (map the (link_texts t))))) \<and>
   (\<forall>W. info_name U W \<longrightarrow>
          matches U info_re (W @ str ''.txt'') \<and>
          replace_slash (W @ str ''.txt'') = W @ str ''.txt'') \<and>
   (\<forall>P. \<not> info_name U P \<longrightarrow> \<not> matches U info_re (P @ str ''.txt'')) \<and>
   (\<forall>T. \<not> endswith T (str ''txt'') \<and> \<not> endswith T (str ''txt'' @ [NL]) \<longrightarrow>
          \<not> matches U info_re T) \<and>
   (\<forall>W. info_name U W \<and> None \<notin> set (link_texts t) \<and>
          Some (W @ str ''.txt'') \<in> set (link_texts t) \<longrightarrow>
          (\<exists>fs. get_info_files_from_table U t = Inr fs \<and> W @ str ''.txt'' \<in> set fs))"
proof -
  have out: "get_info_files_from_table U t =
     (if None \<in> set (link_texts t) then Inl TypeError
      else Inr (map replace_slash (filter (matches U info_re) (map the (link_texts t)))))"
    by (simp add: get_info_files_from_table_def keep_matching_eq)
  have dot: "str ''.txt'' = [46] @ str ''txt''" by (simp add: str_def)
  have nl: "(46::nat) \<noteq> NL" by (simp add: NL_def)
  have keep: "matches U info_re (W @ str ''.txt'') \<and>
      replace_slash (W @ str ''.txt'') = W @ str ''.txt''" if "info_name U W" for W
  proof
    show "matches U info_re (W @ str ''.txt'')"
      unfolding matches_info_iff dot using that nl
      by (intro exI [of _ W] exI [of _ 46]) simp
    show "replace_slash (W @ str ''.txt'') = W @ str ''.txt''"
      using info_name_no_slash [OF that] by (simp add: replace_slash_def str_def SLASH_def)
  qed
  have drop1: "\<not> matches U info_re (P @ str ''.txt'')" if "\<not> info_name U P" for P
  proof
    assume "matches U info_re (P @ str ''.txt'')"
    then obtain W c where W: "info_name U W"
      and s: "P @ str ''.txt'' = W @ [c] @ str ''txt'' \<or>
              P @ str ''.txt'' = W @ [c] @ str ''txt'' @ [NL]"
      unfolding matches_info_iff by blast
    from s show False
    proof
      assume "P @ str ''.txt'' = W @ [c] @ str ''txt''"
      then have "(P @ [46]) @ str ''txt'' = (W @ [c]) @ str ''txt''"
        by (simp add: str_def)
      then have "P @ [46] = W @ [c]" by (simp only: append_same_eq)
      then have "P = W" by simp
      with W that show False by simp
    next
      assume "P @ str ''.txt'' = W @ [c] @ str ''txt'' @ [NL]"
      then have "last (P @ str ''.txt'') = last (W @ [c] @ str ''txt'' @ [NL])" by simp
      then show False by (simp add: str_def NL_def)
    qed
  qed
  have drop2: "\<not> matches U info_re T"
    if "\<not> endswith T (str ''txt'') \<and> \<not> endswith T (str ''txt'' @ [NL])" for T
  proof
    assume "matches U info_re T"
    then obtain W c where "T = (W @ [c]) @ str ''txt'' \<or> T = (W @ [c]) @ (str ''txt'' @ [NL])"
      unfolding matches_info_iff by auto
    then have "endswith T (str ''txt'') \<or> endswith T (str ''txt'' @ [NL])"
      using endswith_append by metis
    with that show False by blast
  qed
  have incl: "\<exists>fs. get_info_files_from_table U t = Inr fs \<and> W @ str ''.txt'' \<in> set fs"
    if "info_name U W" "None \<notin> set (link_texts t)"
      "Some (W @ str ''.txt'') \<in> set (link_texts t)" for W
  proof -
    let ?fs = "map replace_slash (filter (matches U info_re) (map the (link_texts t)))"
    have "the (Some (W @ str ''.txt'')) \<in> set (map the (link_texts t))"
      using that(3) unfolding set_map by (rule imageI)
    then have "W @ str ''.txt'' \<in> set (map the (link_texts t))" by simp
    moreover have "matches U info_re (W @ str ''.txt'')" using keep [OF that(1)] by blast
    ultimately have "W @ str ''.txt'' \<in>
        set (filter (matches U info_re) (map the (link_texts t)))" by simp
    then have "replace_slash (W @ str ''.txt'') \<in> set ?fs"
      unfolding set_map by (rule imageI)
    then have "W @ str ''.txt'' \<in> set ?fs" using keep [OF that(1)] by simp
    moreover have "get_info_files_from_table U t = Inr ?fs" using out that(2) by simp
    ultimately show ?thesis by blast
  qed
  from out keep drop1 drop2 incl show ?thesis by blast
qed

theorem get_info_files_from_table_keeps_word_txt_witness:
  "None \<notin> set (link_texts info_table) \<and>
   Some (str ''k_d'' @ str ''.txt'') \<in> set (link_texts info_table) \<and>
   info_name sample_tables (str ''k_d'') \<and>
   \<not> info_name sample_tables (str ''a-b'') \<and>
   \<not> endswith (str ''2001/'') (str ''txt'') \<and>
   \<not> endswith (str ''2001/'') (str ''txt'' @ [NL]) \<and>
   get_info_files_from_table sample_tables info_table = Inr [str ''k_d.txt''] \<and>
   None \<in> set (link_texts parent_link_table) \<and>
   get_info_files_from_table sample_tables parent_link_table = Inl TypeError"
proof -
  have h: "None \<notin> set (link_texts info_table)"
    "Some (str ''k_d'' @ str ''.txt'') \<in> set (link_texts info_table)"
    "None \<in> set (link_texts parent_link_table)"
    by code_simp+
  have d: "info_name sample_tables (str ''k_d'')" "\<not> info_name sample_tables (str ''a-b'')"
    "\<not> endswith (str ''2001/'') (str ''txt'')"
    "\<not> endswith (str ''2001/'') (str ''txt'' @ [NL])"
    by code_simp+
  have e: "map replace_slash (filter (matches sample_tables info_re)
      (map the (link_texts info_table))) = [str ''k_d.txt'']"
    by code_simp
  show ?thesis
    using h d
      get_info_files_from_table_keeps_word_txt [of sample_tables info_table]
      get_info_files_from_table_keeps_word_txt [of sample_tables parent_link_table]
    unfolding e by simp
qed

text \<open>
  The claim as it is worded fails in two ways. A name that ends in \<open>.txt\<close> and has a
  hyphen is dropped: \<open>re.match\<close> needs word characters from the start of the name up to
  the dot. And a table with the link \<open>k_d.txt\<close> and a link that yields no string gives
  no list at all: the call raises.
\<close>

theorem get_info_files_from_table_hyphen_counterexample:
  "endswith (str ''a-b.txt'') (str ''.txt'') \<and>
   link_texts hyphen_table = [Some (str ''a-b.txt'')] \<and>
   get_info_files_from_table sample_tables hyphen_table = Inr [] \<and>
   endswith (str ''k_d.txt'') (str ''.txt'') \<and>
   link_texts parent_link_table = [Some (str ''k_d.txt''), None] \<and>
   get_info_files_from_table sample_tables parent_link_table = Inl TypeError"
  by code_simp

section \<open>Classifier: links without a string\<close>

text \<open>
  Claim C10. If some link of the table yields no string (\<open>.string\<close> is \<open>None\<close>, as for
  a link with several children), both \<open>get_dates_from_table\<close> and
  \<open>get_info_files_from_table\<close> raise \<open>TypeError\<close>; the entry is not skipped. If every
  link yields a string, both return a list.
\<close>

theorem classifier_raises_without_string:
  "(None \<in> set (link_texts t) \<longrightarrow>
      get_dates_from_table U t = Inl TypeError \<and>
      get_info_files_from_table U t = Inl TypeError) \<and>
   (None \<notin> set (link_texts t) \<longrightarrow>
      (\<exists>ds. get_dates_from_table U t = Inr ds) \<and>
      (\<exists>fs. get_info_files_from_table U t = Inr fs))"
  by (simp add: get_dates_from_table_def get_info_files_from_table_def keep_matching_eq)

theorem classifier_raises_without_string_witness:
  "None \<in> set (link_texts nested_link_table) \<and>
   get_dates_from_table sample_tables nested_link_table = Inl TypeError \<and>
   get_info_files_from_table sample_tables nested_link_table = Inl TypeError \<and>
   None \<notin> set (link_texts date_table) \<and>
   (\<exists>ds. get_dates_from_table sample_tables date_table = Inr ds) \<and>
   (\<exists>fs. get_info_files_from_table sample_tables date_table = Inr fs)"
proof -
  have a: "None \<in> set (link_texts nested_link_table)" by code_simp
  have b: "None \<notin> set (link_texts date_table)" by code_simp
  show ?thesis
    using a b classifier_raises_without_string [of nested_link_table sample_tables]
      classifier_raises_without_string [of date_table sample_tables]
    by simp
qed

section \<open>Facts about the header extractor\<close>

lemma accepts_upper: "accepts U (In upper_set) c \<longleftrightarrow> upper_letter c"
  by (auto simp: upper_set_def upper_letter_def)

lemma accepts_before_bracket:
  "accepts U (In (letter_set @ [Chr 37, Chr 176, Chr 124])) c \<longleftrightarrow> before_bracket c"
  by (auto simp: letter_set_def upper_set_def before_bracket_def letter_def upper_letter_def)

lemma ends_One:
  "ends U (One c) (i, r, g) =
     (if r \<noteq> [] \<and> accepts U c (hd r) then [(Suc i, tl r, g)] else [])"
  by (cases r) simp_all

lemma greedy_first:
  fixes f :: "nat \<Rightarrow> 'a list"
  assumes "concat (map f (rev [0 ..< Suc n])) \<noteq> []"
  shows "\<exists>k \<le> n. f k \<noteq> [] \<and> (\<forall>k'. k < k' \<and> k' \<le> n \<longrightarrow> f k' = []) \<and>
           hd (concat (map f (rev [0 ..< Suc n]))) = hd (f k)"
  using assms
proof (induction n)
  case 0
  then show ?case by simp
next
  case (Suc n)
  have e: "concat (map f (rev [0 ..< Suc (Suc n)])) = f (Suc n) @ concat (map f (rev [0 ..< Suc n]))"
    by simp
  show ?case
  proof (cases "f (Suc n) = []")
    case False
    then have "f (Suc n) \<noteq> [] \<and> (\<forall>k'. Suc n < k' \<and> k' \<le> Suc n \<longrightarrow> f k' = []) \<and>
        hd (concat (map f (rev [0 ..< Suc (Suc n)]))) = hd (f (Suc n))"
      unfolding e by auto
    then show ?thesis by blast
  next
    case True
    with Suc.prems have "concat (map f (rev [0 ..< Suc n])) \<noteq> []"
      unfolding e by simp
    from Suc.IH [OF this] obtain k where k: "k \<le> n" "f k \<noteq> []"
      "\<forall>k'. k < k' \<and> k' \<le> n \<longrightarrow> f k' = []"
      "hd (concat (map f (rev [0 ..< Suc n]))) = hd (f k)" by blast
    have "\<forall>k'. k < k' \<and> k' \<le> Suc n \<longrightarrow> f k' = []"
      using k(3) True by (auto simp: le_Suc_eq)
    moreover have "hd (concat (map f (rev [0 ..< Suc (Suc n)]))) = hd (f k)"
      unfolding e using True k(4) by simp
    ultimately show ?thesis using k(1,2) by (intro exI [of _ k]) simp
  qed
qed

lemma greedy_nonempty:
  fixes f :: "nat \<Rightarrow> 'a list"
  shows "concat (map f (rev [0 ..< Suc n])) \<noteq> [] \<longleftrightarrow> (\<exists>k \<le> n. f k \<noteq> [])"
proof -
  have "concat (map f (rev [0 ..< Suc n])) \<noteq> [] \<longleftrightarrow> (\<exists>k \<in> set [0 ..< Suc n]. f k \<noteq> [])"
    by (simp del: upt_Suc)
  also have "\<dots> \<longleftrightarrow> (\<exists>k \<le> n. f k \<noteq> [])"
    by (simp del: upt_Suc add: Bex_def less_Suc_eq_le)
  finally show ?thesis .
qed

lemma ends_Cat_Star:
  "ends U (Cat (Star c) T) (i, r, g) =
     concat (map (\<lambda>k. ends U T (i + k, drop k r, g))
               (rev [0 ..< Suc (length (takeWhile (accepts U c) r))]))"
  by (simp add: comp_def rev_map [symmetric] del: upt_Suc)

text \<open>The part of pattern A after the first character, at the state after it.\<close>

lemma bracket_tail:
  "ends U (Cat (One (In (letter_set @ [Chr 37, Chr 176, Chr 124]))) (Lit RBRACKET))
      (i, r, g) =
     (if Suc 0 < length r \<and> before_bracket (r ! 0) \<and> r ! Suc 0 = RBRACKET
      then [(Suc (Suc i), drop 2 r, g)] else [])"
proof (cases r)
  case Nil
  then show ?thesis by (simp add: ends_One del: ends.simps(1))
next
  case (Cons a r1)
  show ?thesis
  proof (cases r1)
    case Nil
    with Cons show ?thesis
      by (simp add: ends_One ends_Lit accepts_before_bracket del: ends.simps(1) accepts.simps)
  next
    case (Cons b r2)
    with \<open>r = a # r1\<close> show ?thesis
      by (simp add: ends_One ends_Lit accepts_before_bracket del: ends.simps(1) accepts.simps)
  qed
qed

lemma takeWhile_not_NL:
  "k \<le> length (takeWhile (accepts U Dot) r) \<longleftrightarrow> k \<le> length r \<and> NL \<notin> set (take k r)"
  unfolding le_length_takeWhile by (auto simp: list_all_iff)

lemma bracket_tail_at:
  "ends U (Cat (One (In (letter_set @ [Chr 37, Chr 176, Chr 124]))) (Lit RBRACKET))
      (i + k, drop k r, g) \<noteq> [] \<and> k \<le> length (takeWhile (accepts U Dot) r) \<longleftrightarrow>
   bracket_at r k"
  unfolding bracket_tail takeWhile_not_NL bracket_at_def
  by (auto simp: less_eq_Suc_le)


lemma ends_Cat_Bol: "ends U (Cat Bol X) (0, r, g) = ends U X (0, r, g)"
  by simp

lemma ends_Cat_One:
  "ends U (Cat (One c) Y) (i, r, g) =
     (if r \<noteq> [] \<and> accepts U c (hd r) then ends U Y (Suc i, tl r, g) else [])"
  by (cases r) simp_all

lemma pattern_A_ends:
  "ends U pattern_A (0, line, g) =
     map (\<lambda>(j, r', g'). (j, r', g'(1 \<mapsto> take j line)))
       (if line \<noteq> [] \<and> upper_letter (hd line)
        then concat (map (\<lambda>k. ends U (Cat (One (In (letter_set @ [Chr 37, Chr 176, Chr 124])))
                                        (Lit RBRACKET)) (1 + k, drop k (tl line), g))
                      (rev [0 ..< Suc (length (takeWhile (accepts U Dot) (tl line)))]))
        else [])"
proof -
  have "ends U (cat [Bol, One (In upper_set), Star Dot,
                   One (In (letter_set @ [Chr 37, Chr 176, Chr 124])), Lit RBRACKET])
          (0, line, g) =
        (if line \<noteq> [] \<and> upper_letter (hd line)
         then ends U (Cat (Star Dot) (Cat (One (In (letter_set @ [Chr 37, Chr 176, Chr 124])))
                                        (Lit RBRACKET))) (1, tl line, g)
         else [])"
    unfolding cat.simps ends_Cat_Bol ends_Cat_One accepts_upper by simp
  then show ?thesis
    unfolding pattern_A_def ends.simps(9) ends_Cat_Star by simp
qed

lemma pattern_A_nonempty:
  "ends U pattern_A (0, line, g) \<noteq> [] \<longleftrightarrow>
     line \<noteq> [] \<and> upper_letter (hd line) \<and> (\<exists>k. bracket_at (tl line) k)"
proof -
  let ?T = "Cat (One (In (letter_set @ [Chr 37, Chr 176, Chr 124]))) (Lit RBRACKET)"
  let ?n = "length (takeWhile (accepts U Dot) (tl line))"
  have "(\<exists>k \<le> ?n. ends U ?T (1 + k, drop k (tl line), g) \<noteq> []) \<longleftrightarrow>
      (\<exists>k. bracket_at (tl line) k)"
    using bracket_tail_at [of U 1 _ "tl line" g] by blast
  then show ?thesis
    unfolding pattern_A_ends using greedy_nonempty [of "\<lambda>k. ends U ?T (1 + k, drop k (tl line), g)" ?n]
    by (simp del: upt_Suc ends.simps)
qed

lemma pattern_A_first:
  assumes "ends U pattern_A (0, line, g) \<noteq> []"
  shows "\<exists>k. bracket_at (tl line) k \<and> (\<forall>k'. k < k' \<longrightarrow> \<not> bracket_at (tl line) k') \<and>
           hd (ends U pattern_A (0, line, g)) =
             (k + 3, drop (k + 2) (tl line), g(1 \<mapsto> take (k + 3) line))"
proof -
  let ?T = "Cat (One (In (letter_set @ [Chr 37, Chr 176, Chr 124]))) (Lit RBRACKET)"
  let ?n = "length (takeWhile (accepts U Dot) (tl line))"
  let ?f = "\<lambda>k. ends U ?T (1 + k, drop k (tl line), g)"
  let ?L = "concat (map ?f (rev [0 ..< Suc ?n]))"
  from assms have up: "line \<noteq> [] \<and> upper_letter (hd line)" and ne: "?L \<noteq> []"
    unfolding pattern_A_ends by (auto split: if_splits simp del: upt_Suc ends.simps)
  from greedy_first [OF ne] obtain k where k: "k \<le> ?n" "?f k \<noteq> []"
    "\<forall>k'. k < k' \<and> k' \<le> ?n \<longrightarrow> ?f k' = []" "hd ?L = hd (?f k)" by blast
  have b: "bracket_at (tl line) k"
    using bracket_tail_at [of U 1 k "tl line" g] k(1,2) by blast
  have later: "\<not> bracket_at (tl line) k'" if "k < k'" for k'
    using bracket_tail_at [of U 1 k' "tl line" g] k(3) that by blast
  have "?f k = [(Suc (Suc (1 + k)), drop 2 (drop k (tl line)), g)]"
    using k(2) unfolding bracket_tail by (simp split: if_splits)
  with k(4) have hdL: "hd ?L = (k + 3, drop (k + 2) (tl line), g)"
    by (simp add: add.commute)
  have "hd (ends U pattern_A (0, line, g)) =
      (\<lambda>(j, r', g'). (j, r', g'(1 \<mapsto> take j line))) (hd ?L)"
    unfolding pattern_A_ends using up ne by (simp add: hd_map del: upt_Suc ends.simps)
  with hdL b later show ?thesis by auto
qed

lemma header_of_line_pattern_A:
  assumes "hd (ends U pattern_A (0, line, Map.empty)) = (j, r, g)"
    and "ends U pattern_A (0, line, Map.empty) \<noteq> []"
    and "g 1 = Some (take j line)" "g 2 = None" "take j line \<noteq> []"
  shows "header_of_line U line = Inr (take j line)"
proof -
  obtain rest where e: "ends U headers_re (0, drop 0 line, Map.empty) = (j, r, g) # rest"
    using assms(1,2) unfolding headers_re_def ends.simps(8)
    by (cases "ends U pattern_A (0, line, Map.empty)") auto
  have gs: "group_strings 2 g = [take j line, []]"
    using assms(3,4) by (simp add: group_strings_def upt_rec numeral_2_eq_2)
  have "findall_from U headers_re 2 line 0 =
      group_strings 2 g # findall_from U headers_re 2 line (if 0 < j then j else Suc 0)"
    using findall_from.simps [of U headers_re 2 line 0] unfolding e by simp
  then show ?thesis
    unfolding header_of_line_def first_capture_def findall_def gs using assms(5) by simp
qed

section \<open>Header extractor: pattern A\<close>

text \<open>
  Claim C1, as the code has it. Pattern A matches a line exactly when the line starts with
  one of \<open>A-Z\<close> or the seven Polish capitals of the set and, later and before any
  newline, has a character of the closing set (a letter of the pattern, \<open>%\<close>, \<open>\<degree>\<close>
  or \<open>|\<close>) followed at once by \<open>]\<close>. The match runs from the start of the line
  through the last such \<open>]\<close>, and when pattern A matches, the header text taken for the
  line is that whole matched span.
\<close>

theorem pattern_A_matches_through_last_bracket:
  "(matches U pattern_A line \<longleftrightarrow>
      line \<noteq> [] \<and> upper_letter (hd line) \<and> (\<exists>k. bracket_at (tl line) k)) \<and>
   (matches U pattern_A line \<longrightarrow>
      (\<exists>k r g. bracket_at (tl line) k \<and> (\<forall>k'. k < k' \<longrightarrow> \<not> bracket_at (tl line) k') \<and>
               re_match U pattern_A line = Some (k + 3, r, g) \<and>
               header_of_line U line = Inr (take (k + 3) line)))"
proof
  show "matches U pattern_A line \<longleftrightarrow>
      line \<noteq> [] \<and> upper_letter (hd line) \<and> (\<exists>k. bracket_at (tl line) k)"
    unfolding matches_nonempty by (rule pattern_A_nonempty)
  show "matches U pattern_A line \<longrightarrow>
      (\<exists>k r g. bracket_at (tl line) k \<and> (\<forall>k'. k < k' \<longrightarrow> \<not> bracket_at (tl line) k') \<and>
               re_match U pattern_A line = Some (k + 3, r, g) \<and>
               header_of_line U line = Inr (take (k + 3) line))"
  proof
    assume "matches U pattern_A line"
    then have ne: "ends U pattern_A (0, line, Map.empty) \<noteq> []"
      unfolding matches_nonempty .
    then have line: "line \<noteq> []" unfolding pattern_A_nonempty by simp
    from pattern_A_first [OF ne] obtain k where k: "bracket_at (tl line) k"
      "\<forall>k'. k < k' \<longrightarrow> \<not> bracket_at (tl line) k'"
      "hd (ends U pattern_A (0, line, Map.empty)) =
         (k + 3, drop (k + 2) (tl line), [1 \<mapsto> take (k + 3) line])"
      by blast
    have m: "re_match U pattern_A line =
        Some (k + 3, drop (k + 2) (tl line), [1 \<mapsto> take (k + 3) line])"
      using ne k(3) unfolding re_match_def
      by (cases "ends U pattern_A (0, line, Map.empty)") simp_all
    have "take (k + 3) line \<noteq> []" using line by simp
    then have "header_of_line U line = Inr (take (k + 3) line)"
      using header_of_line_pattern_A [OF k(3) ne] by simp
    with k(1,2) m show "\<exists>k r g. bracket_at (tl line) k \<and>
        (\<forall>k'. k < k' \<longrightarrow> \<not> bracket_at (tl line) k') \<and>
        re_match U pattern_A line = Some (k + 3, r, g) \<and>
        header_of_line U line = Inr (take (k + 3) line)"
      by blast
  qed
qed

theorem pattern_A_matches_through_last_bracket_witness:
  "matches sample_tables pattern_A (str ''T [C] [m] 5'' @ [NL]) \<and>
   bracket_at (tl (str ''T [C] [m] 5'' @ [NL])) 6 \<and>
   header_of_line sample_tables (str ''T [C] [m] 5'' @ [NL]) = Inr (str ''T [C] [m]'')"
proof -
  have a: "matches sample_tables pattern_A (str ''T [C] [m] 5'' @ [NL])" by code_simp
  have b: "bracket_at (tl (str ''T [C] [m] 5'' @ [NL])) 6" by code_simp
  have c: "header_of_line sample_tables (str ''T [C] [m] 5'' @ [NL]) = Inr (str ''T [C] [m]'')"
    by code_simp
  show ?thesis
    using a b c pattern_A_matches_through_last_bracket
      [of sample_tables "str ''T [C] [m] 5'' @ [NL]"]
    by simp
qed

text \<open>
  The claim as it is worded fails both ways: a line that goes on after the bracket
  (\<open>T [C] 5\<close>) is matched although it does not end as the claim says, with or without its
  newline; and a line that ends in a letter but has no bracket (\<open>TEMP\<close>) is not matched.
\<close>

theorem pattern_A_not_anchored_counterexample:
  "matches sample_tables pattern_A (str ''T [C] 5'' @ [NL]) \<and>
   \<not> spec_pattern_A (str ''T [C] 5'') \<and>
   \<not> spec_pattern_A (str ''T [C] 5'' @ [NL]) \<and>
   \<not> matches sample_tables pattern_A (str ''TEMP'' @ [NL]) \<and>
   spec_pattern_A (str ''TEMP'')"
  by code_simp











section \<open>Header extractor: the header block\<close>





section \<open>Listing parser: the table of a page\<close>

lemma filter_first:
  "filter P xs = x # ys \<Longrightarrow> \<exists>pre post. xs = pre @ x # post \<and> P x \<and> (\<forall>y \<in> set pre. \<not> P y)"
  by (auto simp: filter_eq_Cons_iff)

text \<open>
  Claim C4, as the code has it. A failure of the fetch propagates. Otherwise the body is
  parsed and the first table element in document order is returned; for a page with no
  table element the call returns \<open>None\<close> and raises nothing.
\<close>

theorem get_table_from_imgw_returns_first_table_or_none:
  "(\<forall>e. requests_get url = Inl e \<longrightarrow>
        get_table_from_imgw requests_get html_parser url = Inl e) \<and>
   (\<forall>page. requests_get url = Inr page \<longrightarrow>
      (\<not> list_ex (is_tag (str ''table'')) (descendants (html_parser (body page))) \<longrightarrow>
         get_table_from_imgw requests_get html_parser url = Inr None) \<and>
      (list_ex (is_tag (str ''table'')) (descendants (html_parser (body page))) \<longrightarrow>
         (\<exists>pre x post. descendants (html_parser (body page)) = pre @ x # post \<and>
            is_tag (str ''table'') x \<and> (\<forall>y \<in> set pre. \<not> is_tag (str ''table'') y) \<and>
            get_table_from_imgw requests_get html_parser url = Inr (Some x))))"
proof (intro conjI allI impI)
  fix e assume "requests_get url = Inl e"
  then show "get_table_from_imgw requests_get html_parser url = Inl e"
    by (simp add: get_table_from_imgw_def)
next
  fix page assume p: "requests_get url = Inr page"
  assume "\<not> list_ex (is_tag (str ''table'')) (descendants (html_parser (body page)))"
  then have "find_all (str ''table'') (html_parser (body page)) = []"
    by (simp add: find_all_def list_ex_iff filter_empty_conv)
  with p show "get_table_from_imgw requests_get html_parser url = Inr None"
    by (simp add: get_table_from_imgw_def find_def)
next
  fix page assume p: "requests_get url = Inr page"
  let ?d = "descendants (html_parser (body page))"
  assume "list_ex (is_tag (str ''table'')) ?d"
  then have "filter (is_tag (str ''table'')) ?d \<noteq> []"
    by (simp add: list_ex_iff filter_empty_conv)
  then obtain x ys where f: "filter (is_tag (str ''table'')) ?d = x # ys"
    by (cases "filter (is_tag (str ''table'')) ?d") auto
  from filter_first [OF f] obtain pre post where
    "?d = pre @ x # post" "is_tag (str ''table'') x" "\<forall>y \<in> set pre. \<not> is_tag (str ''table'') y"
    by blast
  moreover have "get_table_from_imgw requests_get html_parser url = Inr (Some x)"
    using p f by (simp add: get_table_from_imgw_def find_def find_all_def)
  ultimately show "\<exists>pre x post. ?d = pre @ x # post \<and>
            is_tag (str ''table'') x \<and> (\<forall>y \<in> set pre. \<not> is_tag (str ''table'') y) \<and>
            get_table_from_imgw requests_get html_parser url = Inr (Some x)"
    by blast
qed

theorem get_table_from_imgw_returns_first_table_or_none_witness:
  "list_ex (is_tag (str ''table'')) (descendants listing_page) \<and>
   get_table_from_imgw (always_responds 200) (parses_to listing_page) (str ''u'') =
     Inr (Some (Tag (str ''table'') [link (str ''2001/'')])) \<and>
   get_table_from_imgw never_connects (parses_to listing_page) (str ''u'') =
     Inl ConnectionError"
proof -
  have a: "list_ex (is_tag (str ''table'')) (descendants listing_page)" by code_simp
  have b: "get_table_from_imgw (always_responds 200) (parses_to listing_page) (str ''u'') =
     Inr (Some (Tag (str ''table'') [link (str ''2001/'')]))" by code_simp
  show ?thesis
    using a b
      get_table_from_imgw_returns_first_table_or_none
        [of never_connects "str ''u''" "parses_to listing_page"]
      get_table_from_imgw_returns_first_table_or_none
        [of "always_responds 200" "str ''u''" "parses_to listing_page"]
    by (simp add: never_connects_def)
qed

text \<open>
  The claim as it is worded fails for a page without a table: the call does not fail,
  it returns \<open>None\<close>.
\<close>

theorem get_table_from_imgw_no_table_counterexample:
  "\<not> list_ex (is_tag (str ''table'')) (descendants paragraph_page) \<and>
   get_table_from_imgw (always_responds 200) (parses_to paragraph_page) (str ''u'') =
     Inr None"
  by code_simp

section \<open>Fetcher: a response that is not 200\<close>

text \<open>
  Claim C8. For a response whose status is not 200, \<open>download_url\<close> leaves every file
  as it was (the destination is neither created nor changed), prints the failure
  message and returns without raising.
\<close>

theorem download_url_not_200_writes_nothing:
  assumes "requests_get url = Inr r" and "status_code r \<noteq> 200"
  shows "download_url requests_get url save_path chunk_size w =
           (Inr (),
            w\<lparr>stdout := stdout w @
              [str ''File does not exist. Is URL proper? Unable to download the file.'']\<rparr>) \<and>
         contents (snd (download_url requests_get url save_path chunk_size w)) = contents w"
  using assms by (simp add: download_url_def print_def)

theorem download_url_not_200_writes_nothing_witness:
  "status_code (sample_response 404) \<noteq> 200 \<and>
   fst (download_url (always_responds 404) (str ''u'') (str ''new.zip'') 128
          sample_world) = Inr () \<and>
   contents (snd (download_url (always_responds 404) (str ''u'') (str ''new.zip'') 128
          sample_world)) = contents sample_world \<and>
   contents sample_world (str ''new.zip'') = None"
proof -
  have a: "status_code (sample_response 404) \<noteq> 200"
    by (simp add: sample_response_def)
  have b: "contents sample_world (str ''new.zip'') = None"
    by (simp add: sample_world_def str_def)
  show ?thesis
    using a b download_url_not_200_writes_nothing
      [of "always_responds 404" "str ''u''" "sample_response 404" "str ''new.zip''"
          128 sample_world]
    by (simp add: always_responds_def)
qed

section \<open>Merger: the empty case and stacking\<close>

lemma read_selected_filter:
  "read_selected U read_csv csv_dir pat fnames =
     read_selected U read_csv csv_dir pat (filter (selected U pat) fnames)"
  by (induction fnames) (simp_all split: sum.splits)

lemma selected_None: "selected U None fname = endswith fname (str ''.csv'')"
  by (simp add: selected_def)

text \<open>
  Claim C3. When no name of the directory listing ends in \<open>.csv\<close> and passes the
  optional name filter, \<open>merge_imgw_csv_files\<close> raises \<open>ValueError\<close>, whatever the
  headers; it does not return a frame.
\<close>

theorem merge_imgw_csv_files_nothing_to_concatenate:
  assumes "listdir csv_dir = Inr fnames"
    and "filter (selected U f_name_pattern) fnames = []"
  shows "merge_imgw_csv_files U listdir read_csv csv_dir headers f_name_pattern =
           Inl ValueError"
proof -
  have "read_selected U read_csv csv_dir f_name_pattern fnames = Inr []"
    using read_selected_filter [of U read_csv csv_dir f_name_pattern fnames] assms(2) by simp
  then show ?thesis
    using assms(1) by (simp add: merge_imgw_csv_files_def pd_concat_def)
qed

theorem merge_imgw_csv_files_nothing_to_concatenate_witness:
  "no_csv_listdir (str ''d'') = Inr [str ''notes.txt'', str ''a.zip''] \<and>
   filter (selected sample_tables None) [str ''notes.txt'', str ''a.zip''] = [] \<and>
   merge_imgw_csv_files sample_tables no_csv_listdir sample_read_csv (str ''d'') None None =
     Inl ValueError"
proof -
  have a: "no_csv_listdir (str ''d'') = Inr [str ''notes.txt'', str ''a.zip'']"
    by (simp add: no_csv_listdir_def)
  have b: "filter (selected sample_tables None) [str ''notes.txt'', str ''a.zip''] = []"
    by code_simp
  show ?thesis
    using a b merge_imgw_csv_files_nothing_to_concatenate
      [where listdir = no_csv_listdir and csv_dir = "str ''d''" and U = sample_tables
         and f_name_pattern = None and read_csv = sample_read_csv and headers = None]
    by simp
qed

lemma reindex_two:
  assumes "length r = 2" and "a \<noteq> b"
  shows "reindex [a, b] [a, b] r = r"
proof -
  from assms(1) obtain x y where "r = [x, y]"
    by (cases r; cases "tl r") (auto simp: numeral_2_eq_2)
  with assms(2) show ?thesis by (cases x; cases y) (simp_all add: reindex_def)
qed

lemma reindex_rows:
  "list_all (\<lambda>r. length r = 2) rs \<Longrightarrow> a \<noteq> b \<Longrightarrow> map (reindex [a, b] [a, b]) rs = rs"
  by (induction rs) (simp_all add: reindex_two)

lemma pd_concat_three:
  assumes "two_columns f1 n1" "two_columns f2 n2" "two_columns f3 n3"
  shows "pd_concat [f1, f2, f3] =
           Inr \<lparr>columns = [IntLabel 0, IntLabel 1], rows = rows f1 @ rows f2 @ rows f3\<rparr>"
  using assms
  by (simp add: pd_concat_def two_columns_def first_seen_def reindex_rows Let_def)

text \<open>
  Claim C7. With three \<open>.csv\<close> files in the directory, read as frames of two columns
  and 10, 5 and 7 rows, and no name filter, the result has the two columns and the 22
  rows of the three frames stacked in listing order; with headers \<open>[a, b]\<close> the columns
  are labelled \<open>a\<close> and \<open>b\<close> and the rows are the same.
\<close>

theorem merge_imgw_csv_files_stacks_three_files:
  assumes "listdir csv_dir = Inr fnames"
    and "filter (\<lambda>f. endswith f (str ''.csv'')) fnames = [n1, n2, n3]"
    and "read_csv (os_path_join csv_dir n1) = Inr f1"
    and "read_csv (os_path_join csv_dir n2) = Inr f2"
    and "read_csv (os_path_join csv_dir n3) = Inr f3"
    and "two_columns f1 10" and "two_columns f2 5" and "two_columns f3 7"
  shows "merge_imgw_csv_files U listdir read_csv csv_dir None None =
           Inr \<lparr>columns = [IntLabel 0, IntLabel 1], rows = rows f1 @ rows f2 @ rows f3\<rparr> \<and>
         length (rows f1 @ rows f2 @ rows f3) = 22 \<and>
         list_all (\<lambda>r. length r = 2) (rows f1 @ rows f2 @ rows f3) \<and>
         merge_imgw_csv_files U listdir read_csv csv_dir (Some [a, b]) None =
           Inr \<lparr>columns = [StrLabel a, StrLabel b], rows = rows f1 @ rows f2 @ rows f3\<rparr>"
proof -
  have sel: "filter (selected U None) fnames = [n1, n2, n3]"
    using assms(2) by (simp add: selected_None [abs_def])
  then have "n1 \<in> set (filter (selected U None) fnames)"
    "n2 \<in> set (filter (selected U None) fnames)" "n3 \<in> set (filter (selected U None) fnames)"
    by simp_all
  then have s: "selected U None n1" "selected U None n2" "selected U None n3"
    by simp_all
  have "read_selected U read_csv csv_dir None fnames =
      read_selected U read_csv csv_dir None [n1, n2, n3]"
    using read_selected_filter [of U read_csv csv_dir None fnames] sel by simp
  also have "\<dots> = Inr [f1, f2, f3]"
    using s assms(3-5) by simp
  finally have r: "read_selected U read_csv csv_dir None fnames = Inr [f1, f2, f3]" .
  note c = pd_concat_three [OF assms(6-8)]
  have m1: "merge_imgw_csv_files U listdir read_csv csv_dir None None =
      Inr \<lparr>columns = [IntLabel 0, IntLabel 1], rows = rows f1 @ rows f2 @ rows f3\<rparr>"
    using assms(1) r c by (simp add: merge_imgw_csv_files_def)
  have m2: "merge_imgw_csv_files U listdir read_csv csv_dir (Some [a, b]) None =
      Inr \<lparr>columns = [StrLabel a, StrLabel b], rows = rows f1 @ rows f2 @ rows f3\<rparr>"
    using assms(1) r c by (simp add: merge_imgw_csv_files_def set_columns_def)
  have l: "length (rows f1 @ rows f2 @ rows f3) = 22"
    using assms(6-8) by (simp add: two_columns_def)
  have w: "list_all (\<lambda>r. length r = 2) (rows f1 @ rows f2 @ rows f3)"
    using assms(6-8) by (simp add: two_columns_def)
  from m1 m2 l w show ?thesis by simp
qed

theorem merge_imgw_csv_files_stacks_three_files_witness:
  "sample_listdir (str ''d'') =
     Inr [str ''a.csv'', str ''notes.txt'', str ''b.csv'', str ''c.csv''] \<and>
   two_columns (sample_frame 10 1) 10 \<and> two_columns (sample_frame 5 2) 5 \<and>
   two_columns (sample_frame 7 3) 7 \<and>
   merge_imgw_csv_files sample_tables sample_listdir sample_read_csv (str ''d'')
       (Some [str ''a'', str ''b'']) None =
     Inr \<lparr>columns = [StrLabel (str ''a''), StrLabel (str ''b'')],
          rows = replicate 10 [Some 1, None] @ replicate 5 [Some 2, None] @
                 replicate 7 [Some 3, None]\<rparr>"
proof -
  have a: "sample_listdir (str ''d'') =
     Inr [str ''a.csv'', str ''notes.txt'', str ''b.csv'', str ''c.csv'']"
    by (simp add: sample_listdir_def)
  have b: "filter (\<lambda>f. endswith f (str ''.csv''))
      [str ''a.csv'', str ''notes.txt'', str ''b.csv'', str ''c.csv''] =
      [str ''a.csv'', str ''b.csv'', str ''c.csv'']"
    by code_simp
  have r1: "sample_read_csv (os_path_join (str ''d'') (str ''a.csv'')) = Inr (sample_frame 10 1)"
    by code_simp
  have r2: "sample_read_csv (os_path_join (str ''d'') (str ''b.csv'')) = Inr (sample_frame 5 2)"
    by code_simp
  have r3: "sample_read_csv (os_path_join (str ''d'') (str ''c.csv'')) = Inr (sample_frame 7 3)"
    by code_simp
  have t: "two_columns (sample_frame 10 1) 10" "two_columns (sample_frame 5 2) 5"
    "two_columns (sample_frame 7 3) 7"
    by (simp_all add: two_columns_def sample_frame_def list_all_iff)
  show ?thesis
    using a b r1 r2 r3 t merge_imgw_csv_files_stacks_three_files
      [where listdir = sample_listdir and csv_dir = "str ''d''" and U = sample_tables
         and read_csv = sample_read_csv and a = "str ''a''" and b = "str ''b''"
         and ?n1.0 = "str ''a.csv''" and ?n2.0 = "str ''b.csv''" and ?n3.0 = "str ''c.csv''"
         and ?f1.0 = "sample_frame 10 1" and ?f2.0 = "sample_frame 5 2"
         and ?f3.0 = "sample_frame 7 3"]
    by (simp add: sample_frame_def)
qed

section \<open>Directory manager: cleaning a directory\<close>

lemma map_of_upd:
  "map_of (upd x v es) y =
     (if y = x then (case map_of es x of None \<Rightarrow> None | Some c \<Rightarrow> Some v) else map_of es y)"
  by (induction es) (auto simp: upd_def)

lemma map_of_del: "map_of (del x es) y = (if y = x then None else map_of es y)"
  by (induction es) (auto simp: del_def)

lemma upd_upd: "upd x v (upd x w es) = upd x v es"
  by (induction es) (auto simp: upd_def)

lemma delete_entry_at:
  "lookup t p = Some s \<Longrightarrow> q \<noteq> [] \<Longrightarrow>
     delete_entry ok t (p @ q) =
       (case delete_entry ok s q of Inl e \<Rightarrow> Inl e | Inr s' \<Rightarrow> Inr (put t p s'))"
proof (induction p arbitrary: t)
  case Nil
  then show ?case by (simp split: sum.splits)
next
  case (Cons x p)
  from Cons.prems(1) obtain es c where t: "t = Dir es" and c: "map_of es x = Some c"
    and s: "lookup c p = Some s"
    by (auto split: fsnode.splits option.splits)
  show ?case
    using Cons.IH [OF s Cons.prems(2)] Cons.prems(2) t c
    by (simp split: sum.splits)
qed

lemma lookup_put: "lookup t p = Some s \<Longrightarrow> lookup (put t p s') p = Some s'"
proof (induction p arbitrary: t)
  case Nil
  show ?case by simp
next
  case (Cons x p)
  from Cons.prems obtain es c where t: "t = Dir es" and c: "map_of es x = Some c"
    and s: "lookup c p = Some s"
    by (auto split: fsnode.splits option.splits)
  show ?case using Cons.IH [OF s] t c by (simp add: map_of_upd)
qed

lemma put_put: "lookup t p = Some s \<Longrightarrow> put (put t p s1) p s2 = put t p s2"
proof (induction p arbitrary: t)
  case Nil
  show ?case by simp
next
  case (Cons x p)
  from Cons.prems obtain es c where t: "t = Dir es" and c: "map_of es x = Some c"
    and s: "lookup c p = Some s"
    by (auto split: fsnode.splits option.splits)
  show ?case using Cons.IH [OF s] t c by (simp add: map_of_upd upd_upd)
qed

lemma delete_entry_put:
  assumes "lookup t p = Some s0" and "delete_entry ok s (r @ [f]) = Inr s1"
  shows "delete_entry ok (put t p s) ((p @ r) @ [f]) = Inr (put t p s1)"
proof -
  have "lookup (put t p s) p = Some s" by (rule lookup_put [OF assms(1)])
  from delete_entry_at [OF this, of "r @ [f]" ok] assms(2)
  show ?thesis by (simp add: put_put [OF assms(1)])
qed

lemma remove_files_at:
  "lookup t p = Some s0 \<Longrightarrow> remove_files r fs s = (Inr (), s') \<Longrightarrow>
     remove_files (p @ r) fs (put t p s) = (Inr (), put t p s')"
proof (induction fs arbitrary: s)
  case Nil
  then show ?case by simp
next
  case (Cons f fs)
  from Cons.prems(2) obtain s1 where s1: "os_remove s (r @ [f]) = Inr s1"
    and rest: "remove_files r fs s1 = (Inr (), s')"
    by (auto split: sum.splits)
  have "os_remove (put t p s) ((p @ r) @ [f]) = Inr (put t p s1)"
    using delete_entry_put [OF Cons.prems(1)] s1 unfolding os_remove_def by blast
  with Cons.IH [OF Cons.prems(1) rest] show ?case by simp
qed

lemma remove_dirs_at:
  "lookup t p = Some s0 \<Longrightarrow> remove_dirs r ds s = (Inr (), s') \<Longrightarrow>
     remove_dirs (p @ r) ds (put t p s) = (Inr (), put t p s')"
proof (induction ds arbitrary: s)
  case Nil
  then show ?case by simp
next
  case (Cons f fs)
  from Cons.prems(2) obtain s1 where s1: "os_rmdir s (r @ [f]) = Inr s1"
    and rest: "remove_dirs r fs s1 = (Inr (), s')"
    by (auto split: sum.splits)
  have "os_rmdir (put t p s) ((p @ r) @ [f]) = Inr (put t p s1)"
    using delete_entry_put [OF Cons.prems(1)] s1 unfolding os_rmdir_def by blast
  with Cons.IH [OF Cons.prems(1) rest] show ?case by simp
qed


lemma clean_walk_at:
  "lookup t p = Some s0 \<Longrightarrow> clean_walk ws s = (Inr (), s') \<Longrightarrow>
     clean_walk (map (under p) ws) (put t p s) = (Inr (), put t p s')"
proof (induction ws arbitrary: s)
  case Nil
  then show ?case by simp
next
  case (Cons w ws)
  obtain r ds fs where w: "w = (r, ds, fs)" by (cases w)
  from Cons.prems(2) obtain s1 s2 where s1: "remove_files r fs s = (Inr (), s1)"
    and s2: "remove_dirs r ds s1 = (Inr (), s2)"
    and rest: "clean_walk ws s2 = (Inr (), s')"
    unfolding w by (auto split: prod.splits sum.splits)
  show ?case
    unfolding w
    using remove_files_at [OF Cons.prems(1) s1] remove_dirs_at [OF Cons.prems(1) s2]
      Cons.IH [OF Cons.prems(1) rest]
    by (simp add: under_def)
qed

lemma walk_under: "walk (p @ r) n = map (under p) (walk r n)"
proof (induction n arbitrary: r)
  case (File b)
  show ?case by simp
next
  case (Dir es)
  have "walk (p @ r @ [fst e]) (snd e) = map (under p) (walk (r @ [fst e]) (snd e))"
    if "e \<in> set es" for e
    using Dir [of e "snd e" "r @ [fst e]"] that by (cases e) auto
  then have "map (\<lambda>e. walk ((p @ r) @ [fst e]) (snd e)) (filter (\<lambda>e. is_dir (snd e)) es) =
      map (\<lambda>e. map (under p) (walk (r @ [fst e]) (snd e))) (filter (\<lambda>e. is_dir (snd e)) es)"
    by (intro map_cong refl) simp
  then have "concat (map (\<lambda>e. walk ((p @ r) @ [fst e]) (snd e))
        (filter (\<lambda>e. is_dir (snd e)) es)) =
      map (under p) (concat (map (\<lambda>e. walk (r @ [fst e]) (snd e))
        (filter (\<lambda>e. is_dir (snd e)) es)))"
    by (simp only: map_concat map_map comp_def)
  then show ?case
    by (simp add: under_def)
qed

lemma clean_walk_append:
  "clean_walk (a @ b) t =
     (case clean_walk a t of (Inl e, t') \<Rightarrow> (Inl e, t') | (Inr u, t') \<Rightarrow> clean_walk b t')"
proof (induction a arbitrary: t)
  case Nil
  show ?case by simp
next
  case (Cons w a)
  obtain r ds fs where w: "w = (r, ds, fs)" by (cases w)
  show ?case unfolding w using Cons.IH
    by (simp split: prod.splits sum.splits)
qed

lemma upd_same:
  "distinct (map fst cur) \<Longrightarrow> map_of cur n = Some c \<Longrightarrow> upd n c cur = cur"
proof (induction cur)
  case Nil
  show ?case by (simp add: upd_def)
next
  case (Cons e cur)
  show ?case
  proof (cases "fst e = n")
    case True
    then have "n \<notin> fst ` set cur" using Cons.prems(1) by auto
    then have "upd n c cur = cur" by (induction cur) (auto simp: upd_def)
    with True Cons.prems(2) show ?thesis by (cases e) (simp add: upd_def)
  next
    case False
    with Cons show ?thesis by (cases e) (simp add: upd_def)
  qed
qed

lemma remove_files_here:
  "distinct fs \<Longrightarrow> (\<forall>f \<in> set fs. \<exists>c. map_of cur f = Some c \<and> is_file c) \<Longrightarrow>
     remove_files [] fs (Dir cur) = (Inr (), Dir (filter (\<lambda>e. fst e \<notin> set fs) cur))"
proof (induction fs arbitrary: cur)
  case Nil
  show ?case by simp
next
  case (Cons f fs)
  from Cons.prems(2) obtain c where c: "map_of cur f = Some c" "is_file c" by auto
  then have step: "os_remove (Dir cur) ([] @ [f]) = Inr (Dir (del f cur))"
    by (simp add: os_remove_def)
  have "\<forall>g \<in> set fs. \<exists>c. map_of (del f cur) g = Some c \<and> is_file c"
    using Cons.prems by (auto simp: map_of_del)
  from Cons.IH [OF _ this] Cons.prems(1)
  have "remove_files [] fs (Dir (del f cur)) =
      (Inr (), Dir (filter (\<lambda>e. fst e \<notin> set fs) (del f cur)))" by simp
  moreover have "filter (\<lambda>e. fst e \<notin> set fs) (del f cur) =
      filter (\<lambda>e. fst e \<notin> set (f # fs)) cur"
    by (auto simp: del_def intro: filter_cong)
  ultimately show ?case using step by simp
qed

lemma remove_dirs_here:
  "distinct ds \<Longrightarrow> (\<forall>d \<in> set ds. map_of cur d = Some (Dir [])) \<Longrightarrow>
     remove_dirs [] ds (Dir cur) = (Inr (), Dir (filter (\<lambda>e. fst e \<notin> set ds) cur))"
proof (induction ds arbitrary: cur)
  case Nil
  show ?case by simp
next
  case (Cons d ds)
  from Cons.prems(2) have c: "map_of cur d = Some (Dir [])" by auto
  then have step: "os_rmdir (Dir cur) ([] @ [d]) = Inr (Dir (del d cur))"
    by (simp add: os_rmdir_def)
  have "\<forall>g \<in> set ds. map_of (del d cur) g = Some (Dir [])"
    using Cons.prems by (auto simp: map_of_del)
  from Cons.IH [OF _ this] Cons.prems(1)
  have "remove_dirs [] ds (Dir (del d cur)) =
      (Inr (), Dir (filter (\<lambda>e. fst e \<notin> set ds) (del d cur)))" by simp
  moreover have "filter (\<lambda>e. fst e \<notin> set ds) (del d cur) =
      filter (\<lambda>e. fst e \<notin> set (d # ds)) cur"
    by (auto simp: del_def intro: filter_cong)
  ultimately show ?case using step by simp
qed


lemma clean_children:
  assumes "\<forall>e \<in> set ds. clean_walk (walk [] (snd e)) (snd e) = (Inr (), Dir [])"
    and "distinct (map fst ds)"
    and "distinct (map fst cur)"
    and "\<forall>e \<in> set ds. map_of cur (fst e) = Some (snd e)"
  shows "clean_walk (concat (map (\<lambda>e. walk ([] @ [fst e]) (snd e)) ds)) (Dir cur) =
           (Inr (), Dir (emptied (fst ` set ds) cur))"
  using assms
proof (induction ds arbitrary: cur)
  case Nil
  show ?case by (simp add: emptied_def)
next
  case (Cons e ds)
  let ?n = "fst e" and ?c = "snd e"
  have mo: "map_of cur ?n = Some ?c" using Cons.prems(4) by simp
  have look: "lookup (Dir cur) [?n] = Some ?c" by (simp add: mo)
  have same: "put (Dir cur) [?n] ?c = Dir cur"
    by (simp add: mo upd_same [OF Cons.prems(3) mo])
  have c: "clean_walk (walk [] ?c) ?c = (Inr (), Dir [])" using Cons.prems(1) by simp
  have w: "walk ([] @ [?n]) ?c = map (under [?n]) (walk [] ?c)"
    using walk_under [of "[?n]" "[]" ?c] by simp
  have first: "clean_walk (walk ([] @ [?n]) ?c) (Dir cur) = (Inr (), Dir (upd ?n (Dir []) cur))"
    using clean_walk_at [OF look c] unfolding w same by (simp add: mo)
  have d1: "distinct (map fst (upd ?n (Dir []) cur))"
    using Cons.prems(3) by (simp add: upd_def comp_def if_distrib [of fst] cong: if_cong)
  have m1: "\<forall>e' \<in> set ds. map_of (upd ?n (Dir []) cur) (fst e') = Some (snd e')"
  proof
    fix e' assume e': "e' \<in> set ds"
    then have "fst e' \<in> fst ` set ds" by (rule imageI)
    moreover have "?n \<notin> fst ` set ds" using Cons.prems(2) by simp
    ultimately have "fst e' \<noteq> ?n" by metis
    moreover have "map_of cur (fst e') = Some (snd e')" using Cons.prems(4) e' by simp
    ultimately show "map_of (upd ?n (Dir []) cur) (fst e') = Some (snd e')"
      by (simp only: map_of_upd if_False)
  qed
  have rest: "clean_walk (concat (map (\<lambda>e. walk ([] @ [fst e]) (snd e)) ds))
      (Dir (upd ?n (Dir []) cur)) = (Inr (), Dir (emptied (fst ` set ds) (upd ?n (Dir []) cur)))"
    using Cons.IH [OF _ _ d1 m1] Cons.prems(1,2) by simp
  have "emptied (fst ` set ds) (upd ?n (Dir []) cur) = emptied (fst ` set (e # ds)) cur"
    by (auto simp: emptied_def upd_def)
  with first rest show ?case
    by (simp add: clean_walk_append)
qed

lemma map_of_emptied:
  "map_of (emptied N cur) x =
     (if x \<in> N then (case map_of cur x of None \<Rightarrow> None | Some c \<Rightarrow> Some (Dir []))
      else map_of cur x)"
  by (induction cur) (auto simp: emptied_def)

lemma map_fst_emptied: "map fst (emptied N cur) = map fst cur"
  by (induction cur) (simp_all add: emptied_def)

lemma map_of_filter_keys:
  "map_of (filter (\<lambda>e. fst e \<notin> F) cur) x = (if x \<in> F then None else map_of cur x)"
  by (induction cur) auto

lemma file_or_dir: "is_file c \<or> is_dir c"
  by (cases c) simp_all

lemma not_both: "is_file c \<Longrightarrow> \<not> is_dir c"
  by (cases c) simp_all

lemma clean_here:
  "well_formed t \<Longrightarrow> is_dir t \<Longrightarrow> clean_walk (walk [] t) t = (Inr (), Dir [])"
proof (induction t)
  case (File b)
  then show ?case by simp
next
  case (Dir es)
  let ?ds = "filter (\<lambda>e. is_dir (snd e)) es"
  let ?N = "fst ` set ?ds"
  let ?F = "set (files_of es)"
  let ?es1 = "emptied ?N es"
  let ?cur2 = "filter (\<lambda>e. fst e \<notin> ?F) ?es1"
  from Dir.prems(1) have dist: "distinct (map fst es)"
    and wfs: "\<forall>e \<in> set es. well_formed (snd e)"
    by (simp_all add: list_all_iff)
  have mo: "map_of es (fst e) = Some (snd e)" if "e \<in> set es" for e
    using dist that by (cases e) simp
  have key: "e = e'" if "e \<in> set es" "e' \<in> set es" "fst e = fst e'" for e e'
    using mo [OF that(1)] mo [OF that(2)] that(3) by (simp add: prod_eq_iff)
  have N: "?N = set (dirs_of es)" by (simp add: dirs_of_def)
  have disjoint: "x \<notin> ?F" if "x \<in> ?N" for x
  proof
    assume "x \<in> ?F"
    then obtain e where e: "e \<in> set es" "is_file (snd e)" "fst e = x"
      by (auto simp: files_of_def)
    from that obtain e' where e': "e' \<in> set es" "is_dir (snd e')" "fst e' = x" by auto
    from key [OF e(1) e'(1)] e(3) e'(3) have "e = e'" by simp
    with e(2) e'(2) show False using not_both by blast
  qed
  have names: "fst e \<in> ?N \<or> fst e \<in> ?F" if "e \<in> set es" for e
    using that file_or_dir [of "snd e"] by (auto simp: files_of_def)
  have sub: "\<forall>e \<in> set ?ds. clean_walk (walk [] (snd e)) (snd e) = (Inr (), Dir [])"
  proof
    fix e assume e: "e \<in> set ?ds"
    then have "e \<in> set es" "is_dir (snd e)" by simp_all
    moreover have "snd e \<in> Basic_BNFs.snds e" by (cases e) simp
    ultimately show "clean_walk (walk [] (snd e)) (snd e) = (Inr (), Dir [])"
      using Dir.IH [of e "snd e"] wfs by blast
  qed
  have dds: "distinct (map fst ?ds)" using dist by (rule distinct_map_filter)
  have mds: "\<forall>e \<in> set ?ds. map_of es (fst e) = Some (snd e)" using mo by simp
  have children:
    "clean_walk (concat (map (\<lambda>e. walk ([] @ [fst e]) (snd e)) ?ds)) (Dir es) =
       (Inr (), Dir ?es1)"
    by (rule clean_children [OF sub dds dist mds])
  have dfiles: "distinct (files_of es)"
    unfolding files_of_def using dist by (rule distinct_map_filter)
  have "\<forall>f \<in> ?F. \<exists>c. map_of ?es1 f = Some c \<and> is_file c"
  proof
    fix f assume f: "f \<in> ?F"
    then obtain e where e: "e \<in> set es" "is_file (snd e)" "fst e = f"
      by (auto simp: files_of_def)
    have "f \<notin> ?N" using disjoint f by blast
    then have "map_of ?es1 f = Some (snd e)"
      using mo [OF e(1)] e(3) by (simp only: map_of_emptied if_False)
    with e(2) show "\<exists>c. map_of ?es1 f = Some c \<and> is_file c" by blast
  qed
  from remove_files_here [OF dfiles this]
  have files: "remove_files [] (files_of es) (Dir ?es1) = (Inr (), Dir ?cur2)" .
  have ddirs: "distinct (dirs_of es)"
    unfolding dirs_of_def using dist by (rule distinct_map_filter)
  have "\<forall>d \<in> set (dirs_of es). map_of ?cur2 d = Some (Dir [])"
  proof
    fix d assume "d \<in> set (dirs_of es)"
    then have d: "d \<in> ?N" using N by simp
    then obtain e where e: "e \<in> set es" "fst e = d" by auto
    have "map_of es d = Some (snd e)" using mo [OF e(1)] e(2) by simp
    then have "map_of ?es1 d = Some (Dir [])"
      using d by (simp only: map_of_emptied if_True option.case)
    moreover have "d \<notin> ?F" using disjoint [OF d] .
    ultimately show "map_of ?cur2 d = Some (Dir [])"
      by (simp only: map_of_filter_keys if_False)
  qed
  from remove_dirs_here [OF ddirs this]
  have dirs: "remove_dirs [] (dirs_of es) (Dir ?cur2) =
      (Inr (), Dir (filter (\<lambda>e. fst e \<notin> set (dirs_of es)) ?cur2))" .
  have "fst x \<in> set (dirs_of es)" if "x \<in> set ?cur2" for x
  proof -
    from that have x: "x \<in> set ?es1" "fst x \<notin> ?F" by simp_all
    have "fst x \<in> set (map fst ?es1)" using x(1) by simp
    then have "fst x \<in> fst ` set es" by (simp only: map_fst_emptied set_map)
    then obtain e where e: "e \<in> set es" "fst x = fst e" by blast
    from names [OF e(1)] x(2) e(2) N show ?thesis by simp
  qed
  then have "filter (\<lambda>e. fst e \<notin> set (dirs_of es)) ?cur2 = []"
    by (simp only: filter_empty_conv) blast
  with dirs have dirs': "remove_dirs [] (dirs_of es) (Dir ?cur2) = (Inr (), Dir [])" by simp
  have "walk [] (Dir es) =
      concat (map (\<lambda>e. walk ([] @ [fst e]) (snd e)) ?ds) @ [([], dirs_of es, files_of es)]"
    by simp
  then show ?case
    using children files dirs' by (simp only: clean_walk_append) simp
qed

lemma well_formed_lookup:
  "well_formed t \<Longrightarrow> lookup t p = Some s \<Longrightarrow> well_formed s"
proof (induction p arbitrary: t)
  case Nil
  then show ?case by simp
next
  case (Cons x p)
  from Cons.prems(2) obtain es c where t: "t = Dir es" and c: "map_of es x = Some c"
    and s: "lookup c p = Some s"
    by (auto split: fsnode.splits option.splits)
  from c have "(x, c) \<in> set es" by (rule map_of_SomeD)
  with Cons.prems(1) t have "well_formed c" by (auto simp: list_all_iff)
  from Cons.IH [OF this s] show ?case .
qed

lemma put_same: "well_formed t \<Longrightarrow> lookup t p = Some s \<Longrightarrow> put t p s = t"
proof (induction p arbitrary: t)
  case Nil
  then show ?case by simp
next
  case (Cons x p)
  from Cons.prems(2) obtain es c where t: "t = Dir es" and c: "map_of es x = Some c"
    and s: "lookup c p = Some s"
    by (auto split: fsnode.splits option.splits)
  from c have "(x, c) \<in> set es" by (rule map_of_SomeD)
  with Cons.prems(1) t have "well_formed c" and d: "distinct (map fst es)"
    by (auto simp: list_all_iff)
  from Cons.IH [OF this(1) s] upd_same [OF d c] t c show ?case by simp
qed

text \<open>
  Claim C9. On a well-formed tree, \<open>clean_directories\<close> applied to the path of an
  existing directory returns without raising and leaves that directory in place with no
  entries; applied to a path that does not exist it returns without raising, prints
  the message and leaves the tree as it was.
\<close>

theorem clean_directories_leaves_empty_directory:
  "(well_formed (tree d) \<and> lookup (tree d) p = Some (Dir es) \<longrightarrow>
      clean_directories p d =
        (Inr (),
         d\<lparr>printed := printed d @ [str ''path exists - removing contents of '' @ render p],
           tree := put (tree d) p (Dir [])\<rparr>) \<and>
      lookup (put (tree d) p (Dir [])) p = Some (Dir [])) \<and>
   (lookup (tree d) p = None \<longrightarrow>
      clean_directories p d =
        (Inr (),
         d\<lparr>printed := printed d @
            [str ''Path '' @ render p @
             str '' doesn't exist. This folder has to be created manually.'']\<rparr>) \<and>
      tree (snd (clean_directories p d)) = tree d)"
proof (intro conjI impI)
  assume a: "well_formed (tree d) \<and> lookup (tree d) p = Some (Dir es)"
  then have wf: "well_formed (tree d)" and look: "lookup (tree d) p = Some (Dir es)"
    by simp_all
  have "well_formed (Dir es)" by (rule well_formed_lookup [OF wf look])
  then have here: "clean_walk (walk [] (Dir es)) (Dir es) = (Inr (), Dir [])"
    by (rule clean_here) simp
  have w: "walk p (Dir es) = map (under p) (walk [] (Dir es))"
    using walk_under [of p "[]" "Dir es"] by simp
  have "clean_walk (walk p (Dir es)) (tree d) = (Inr (), put (tree d) p (Dir []))"
    using clean_walk_at [OF look here] unfolding w put_same [OF wf look] .
  then show "clean_directories p d =
        (Inr (),
         d\<lparr>printed := printed d @ [str ''path exists - removing contents of '' @ render p],
           tree := put (tree d) p (Dir [])\<rparr>)"
    using look by (simp add: clean_directories_def)
  show "lookup (put (tree d) p (Dir [])) p = Some (Dir [])"
    by (rule lookup_put [OF look])
next
  assume n: "lookup (tree d) p = None"
  then show "clean_directories p d =
        (Inr (),
         d\<lparr>printed := printed d @
            [str ''Path '' @ render p @
             str '' doesn't exist. This folder has to be created manually.'']\<rparr>)"
    by (simp add: clean_directories_def)
  from n show "tree (snd (clean_directories p d)) = tree d"
    by (simp add: clean_directories_def)
qed

theorem clean_directories_leaves_empty_directory_witness:
  "well_formed sample_tree \<and>
   lookup sample_tree [str ''data''] =
     Some (Dir [(str ''a.zip'', File (str ''x'')),
                (str ''csv'', Dir [(str ''1.csv'', File (str ''y'')), (str ''old'', Dir [])]),
                (str ''b.txt'', File [])]) \<and>
   fst (clean_directories [str ''data''] \<lparr>tree = sample_tree, printed = []\<rparr>) = Inr () \<and>
   tree (snd (clean_directories [str ''data''] \<lparr>tree = sample_tree, printed = []\<rparr>)) =
     Dir [(str ''data'', Dir []), (str ''keep.txt'', File (str ''k''))] \<and>
   lookup sample_tree [str ''tmp''] = None \<and>
   tree (snd (clean_directories [str ''tmp''] \<lparr>tree = sample_tree, printed = []\<rparr>)) =
     sample_tree"
proof -
  have a: "well_formed sample_tree" by code_simp
  have b: "lookup sample_tree [str ''data''] =
     Some (Dir [(str ''a.zip'', File (str ''x'')),
                (str ''csv'', Dir [(str ''1.csv'', File (str ''y'')), (str ''old'', Dir [])]),
                (str ''b.txt'', File [])])" by code_simp
  have c: "lookup sample_tree [str ''tmp''] = None" by code_simp
  have e: "put sample_tree [str ''data''] (Dir []) =
     Dir [(str ''data'', Dir []), (str ''keep.txt'', File (str ''k''))]" by code_simp
  show ?thesis
    using a b c
      clean_directories_leaves_empty_directory
        [of "\<lparr>tree = sample_tree, printed = []\<rparr>" "[str ''data'']"
            "[(str ''a.zip'', File (str ''x'')),
              (str ''csv'', Dir [(str ''1.csv'', File (str ''y'')), (str ''old'', Dir [])]),
              (str ''b.txt'', File [])]"]
      clean_directories_leaves_empty_directory
        [of "\<lparr>tree = sample_tree, printed = []\<rparr>" "[str ''tmp'']" "[]"]
    by (simp add: e del: lookup.simps put.simps)
qed

end
